theory Spec2Isabelle
  imports Complex_Main "HOL-Library.Word" "HOL-Library.Sublist"
begin

unbundle bit_operations_syntax

section \<open>Constants and macros of hupmon.c\<close>

text \<open>
  A C \<open>char\<close> is an 8-bit word. The character constants of the source are octal:
  \<open>'\021'\<close> is 17, \<open>'\023'\<close> is 19 and \<open>'\033'\<close> is 27.
\<close>

type_synonym byte = "8 word"

definition XON :: byte where
  "XON = 0x11"

definition XOFF :: byte where
  "XOFF = 0x13"

definition ESC :: byte where
  "ESC = 0x1B"

text \<open>The request \<open>"\033[6n"\<close>, without its terminating NUL (\<open>sizeof(ANSI_CPR) - 1\<close> bytes).\<close>

definition ANSI_CPR :: "byte list" where
  "ANSI_CPR = [0x1B, 0x5B, 0x36, 0x6E]"

definition CPRSIZE :: nat where
  "CPRSIZE = 10"

text \<open>
  \<open>ISCONTROL\<close> and \<open>ISDIGIT\<close> compare a \<open>char\<close> promoted to \<open>int\<close> with character
  constants. With a signed \<open>char\<close> the constants \<open>'\200'\<close> and \<open>'\237'\<close> are -128 and -97;
  \<open>'\177'\<close> is 127, \<open>'\037'\<close> is 31, \<open>'0'\<close> is 48 and \<open>'9'\<close> is 57. (With an unsigned
  \<open>char\<close> both sides of each comparison move by 256 together, see \<open>ISCONTROL_unsigned\<close>.)
\<close>

definition ISCONTROL :: "byte \<Rightarrow> bool" where
  "ISCONTROL c = (sint c = 127 \<or> (0 \<le> sint c \<and> sint c \<le> 31) \<or> (- 128 \<le> sint c \<and> sint c \<le> - 97))"

definition ISDIGIT :: "byte \<Rightarrow> bool" where
  "ISDIGIT c = (48 \<le> sint c \<and> sint c \<le> 57)"

text \<open>
  Values of the system headers the program is compiled against (Linux, generic
  architecture): the \<open>poll(2)\<close> event bits, \<open>EINTR\<close>, the \<open>IXOFF\<close> input flag and the two
  signal numbers the mediator sends.
\<close>

definition POLLIN :: "16 word" where
  "POLLIN = 0x01"

definition POLLERR :: "16 word" where
  "POLLERR = 0x08"

definition POLLHUP :: "16 word" where
  "POLLHUP = 0x10"

definition POLLNVAL :: "16 word" where
  "POLLNVAL = 0x20"

definition EINTR :: int where
  "EINTR = 4"

definition IXOFF :: "32 word" where
  "IXOFF = 0x1000"

definition SIGHUP :: int where
  "SIGHUP = 1"

definition SIGWINCH :: int where
  "SIGWINCH = 28"

definition PFDALIVE :: "16 word \<Rightarrow> bool" where
  "PFDALIVE revents = (revents AND (POLLERR OR POLLHUP OR POLLNVAL) = 0)"

datatype device_state_et = DEVICE_STATUS_UNKNOWN | DEVICE_OFFLINE | DEVICE_ONLINE

text \<open>The only field of \<open>struct termios\<close> the program inspects.\<close>

record termios =
  c_iflag :: "32 word"

text \<open>
  Clock readings, timeouts and deadlines are \<open>double\<close> seconds in the source; they are
  real numbers here, and sums, differences and products are exact, except in the loop
  condition of \<open>ping_tty\<close>, where the rounding is a term of its own. The cast \<open>(int) x\<close>
  truncates towards zero into an \<open>int\<close> of 32 bits. A value whose truncation does not fit
  (\<open>x\<close> is \<open>2^31\<close> or more, or \<open>- 2^31 - 1\<close> or less) has no defined conversion in C; the
  model gives what the conversion instruction of x86-64 gives, the smallest \<open>int\<close>.
\<close>

definition trunc_int :: "real \<Rightarrow> int" where
  "trunc_int x =
     (if - 2147483649 < x \<and> x < 2147483648
      then (if 0 \<le> x then \<lfloor>x\<rfloor> else \<lceil>x\<rceil>)
      else - 2147483648)"

text \<open>
  Ways in which a run of the model stops without a result: an access outside a buffer
  (undefined behaviour in C), and the end of the scripted environment before a loop
  that waits for the environment has finished.
\<close>

datatype stop = Out_Of_Bounds | Script_Ended

text \<open>Loop control: go on with the next iteration, or leave the loop.\<close>

datatype 'a ctl = Continue 'a | Break 'a

fun ctl_vars :: "'a ctl \<Rightarrow> 'a" where
  "ctl_vars (Continue v) = v"
| "ctl_vars (Break v) = v"

text \<open>
  What \<open>read(2)\<close> finds: an error with its \<open>errno\<close>, or the bytes that are available
  (none at end of file). \<open>sys_read count\<close> gives the return value and the bytes stored:
  at most \<open>count\<close> of them.
\<close>

datatype rd = Rd_Error int | Rd_Data "byte list"

fun sys_read :: "nat \<Rightarrow> rd \<Rightarrow> int \<times> byte list" where
  "sys_read count (Rd_Error e) = (- 1, [])"
| "sys_read count (Rd_Data d) = (int (length (take count d)), take count d)"

fun rd_errno :: "rd \<Rightarrow> int" where
  "rd_errno (Rd_Error e) = e"
| "rd_errno (Rd_Data d) = 0"

text \<open>Storing the bytes read at the start of a buffer.\<close>

definition store :: "byte list \<Rightarrow> byte list \<Rightarrow> byte list" where
  "store buffer d = d @ drop (length d) buffer"

text \<open>The input and output the mediator performs, in program order.\<close>

datatype action =
    Poll nat int
  | Read_TTY
  | Write_TTY "byte list"
  | Read_Child
  | Write_Child "byte list"
  | Kill int
  | Set_Winsize

section \<open>The flow-control filter\<close>

text \<open>
  \<open>flow_control_preprocessor\<close>: the loop over \<open>n\<close>, with the buffer, the write cursor
  (as an index into the buffer) and \<open>*txok\<close> as loop state. \<open>n\<close> starts at 0 and only
  grows, so it is a natural number; \<open>*length\<close> is a signed \<open>ssize_t\<close>.
\<close>

function fcp_loop :: "nat \<Rightarrow> int \<Rightarrow> byte list \<Rightarrow> nat \<Rightarrow> int \<Rightarrow> stop + (byte list \<times> nat \<times> int)" where
  "fcp_loop n len bytes cursor txok =
     (if int n < len then
        (if n < length bytes \<and> cursor < length bytes then
           (if bytes ! n \<noteq> XON \<and> bytes ! n \<noteq> XOFF
            then fcp_loop (n + 1) len (bytes[cursor := bytes ! n]) (cursor + 1) txok
            else fcp_loop (n + 1) len bytes cursor (if bytes ! n = XON then 1 else 0))
         else Inl Out_Of_Bounds)
      else Inr (bytes, cursor, txok))"
  by pat_completeness auto
termination
  by (relation "measure (\<lambda>(n, len, bytes, cursor, txok). nat (len - int n))") auto

declare fcp_loop.simps [simp del]

definition flow_control_preprocessor :: "byte list \<Rightarrow> int \<Rightarrow> int \<Rightarrow> stop + (byte list \<times> int \<times> int)" where
  "flow_control_preprocessor bytes len txok =
     (case fcp_loop 0 len bytes 0 txok of
        Inl s \<Rightarrow> Inl s
      | Inr (bytes', cursor, txok') \<Rightarrow> Inr (bytes', int cursor, txok'))"

text \<open>The words of the specification: a data byte is one that is neither XON nor XOFF;
  an XON sets the flag, an XOFF clears it, any other byte leaves it.\<close>

definition is_data :: "byte \<Rightarrow> bool" where
  "is_data b = (b \<noteq> XON \<and> b \<noteq> XOFF)"

definition flow_update :: "byte \<Rightarrow> int \<Rightarrow> int" where
  "flow_update b t = (if b = XON then 1 else if b = XOFF then 0 else t)"

section \<open>The CPR prober\<close>

text \<open>
  One turn of the reply loop of \<open>ping_tty\<close> sees: the clock reading of the loop
  condition, what \<open>poll(2)\<close> returns (with \<open>revents\<close> and \<open>errno\<close>), and what the one-byte
  \<open>read(2)\<close> finds. The loop condition computes \<open>1000 * (deadline - timer())\<close> in
  \<open>double\<close> arithmetic; \<open>pe_round\<close> is what the rounding of these operations (and of the
  sums that made the deadline) adds to the exact value, whatever it is.
\<close>

record ping_event =
  pe_now :: real
  pe_round :: real
  pe_pending :: int
  pe_revents :: "16 word"
  pe_errno :: int
  pe_read :: rd

record ping_vars =
  pv_state :: device_state_et
  pv_deadline :: real
  pv_step :: int
  pv_reply :: "byte list"
  pv_eom :: nat

text \<open>
  The validator: the adjustment of \<open>step\<close> for short digit runs, then the validity of
  the byte at the adjusted step. \<open>';'\<close> is 59, \<open>'R'\<close> is 82 and \<open>'['\<close> is 91.
\<close>

definition cpr_adjust :: "int \<Rightarrow> byte \<Rightarrow> int" where
  "cpr_adjust step b =
     (if (b = 0x3B \<and> (step = 3 \<or> step = 4)) \<or> (b = 0x52 \<and> (step = 7 \<or> step = 8))
      then step + (step mod 2 + 1) else step)"

definition cpr_valid :: "int \<Rightarrow> byte \<Rightarrow> bool" where
  "cpr_valid step b =
     (if step = 0 then b = ESC
      else if step = 1 then b = 0x5B
      else if step = 2 \<or> step = 3 \<or> step = 4 then ISDIGIT b
      else if step = 5 then b = 0x3B
      else if step = 6 \<or> step = 7 \<or> step = 8 then ISDIGIT b
      else if step = 9 then b = 0x52
      else False)"

text \<open>
  The body of the \<open>while\<close> loop of \<open>ping_tty\<close>, after the loop condition has passed.
  The byte is stored at \<open>eom\<close>; a store outside the reply buffer stops the run.
\<close>

definition ping_body :: "termios \<Rightarrow> ping_event \<Rightarrow> ping_vars \<Rightarrow> stop + ping_vars ctl" where
  "ping_body tty_attr e v =
     (if pe_pending e \<le> 0 \<or> \<not> PFDALIVE (pe_revents e) then
        (if pe_pending e = - 1 \<and> pe_errno e = EINTR then Inr (Continue v)
         else if pe_pending e = - 1 then Inr (Break (v\<lparr>pv_state := DEVICE_STATUS_UNKNOWN\<rparr>))
         else Inr (Break v))
      else
        (let (received, data) = sys_read 1 (pe_read e) in
         if received > 0 then
           (let byte = data ! 0;
                v1 = v\<lparr>pv_state := DEVICE_ONLINE\<rparr>
            in if byte \<noteq> ESC \<and> ISCONTROL byte then
                 (if byte = XOFF \<and> c_iflag tty_attr AND IXOFF \<noteq> 0
                  then Inr (Continue (v1\<lparr>pv_deadline := pv_deadline v1 + 0.1\<rparr>))
                  else Inr (Continue v1))
               else
                 (let step = cpr_adjust (pv_step v1) byte;
                      valid = cpr_valid step byte
                  in if pv_eom v1 < length (pv_reply v1) then
                       (let v2 = v1\<lparr>pv_step := step,
                                     pv_reply := (pv_reply v1)[pv_eom v1 := byte],
                                     pv_eom := pv_eom v1 + 1\<rparr>
                        in if \<not> valid then Inr (Break v2)
                           else if step = 9 then Inr (Break (v2\<lparr>pv_step := step + 1, pv_eom := 0\<rparr>))
                           else Inr (Continue (v2\<lparr>pv_step := step + 1\<rparr>)))
                     else Inl Out_Of_Bounds))
         else if received \<noteq> - 1 \<or> rd_errno (pe_read e) \<noteq> EINTR then
           (if received = - 1 then Inr (Break (v\<lparr>pv_state := DEVICE_STATUS_UNKNOWN\<rparr>))
            else Inr (Break v))
         else Inr (Continue v)))"

text \<open>
  The loop, over the turns the environment supplies. The loop is left when the
  milliseconds to the deadline, as computed and cast to \<open>int\<close>, are not positive.
\<close>

fun ping_loop :: "termios \<Rightarrow> ping_event list \<Rightarrow> ping_vars \<Rightarrow> stop + ping_vars" where
  "ping_loop tty_attr [] v = Inl Script_Ended"
| "ping_loop tty_attr (e # es) v =
     (if trunc_int (1000 * (pv_deadline v - pe_now e) + pe_round e) > 0 then
        (case ping_body tty_attr e v of
           Inl s \<Rightarrow> Inl s
         | Inr (Continue v') \<Rightarrow> ping_loop tty_attr es v'
         | Inr (Break v') \<Rightarrow> Inr v')
      else Inr v)"

text \<open>
  What the system calls of one \<open>ping_tty\<close> call return: \<open>tcgetattr\<close> and the attributes
  it fetches, \<open>tcsetattr\<close>, \<open>write\<close>, \<open>tcdrain\<close>, the clock reading the deadline is
  computed from, and the turns of the reply loop.
\<close>

record ping_env =
  pg_tcgetattr :: int
  pg_tty_attr :: termios
  pg_tcsetattr :: int
  pg_write :: int
  pg_tcdrain :: int
  pg_timer :: real
  pg_events :: "ping_event list"

record ping_result =
  pr_state :: device_state_et
  pr_reply :: "byte list"
  pr_length :: "int option"
  pr_actions :: "action list"

text \<open>
  \<open>ping_tty\<close>. The \<open>length\<close> argument is a pointer that may be NULL: \<open>None\<close> is NULL,
  \<open>Some n\<close> a pointer to a variable holding \<open>n\<close>.
\<close>

definition ping_tty :: "byte list \<Rightarrow> int option \<Rightarrow> real \<Rightarrow> ping_env \<Rightarrow> stop + ping_result" where
  "ping_tty reply len cprtimeout env =
     (if pg_tcgetattr env \<noteq> 0 \<or> pg_tcsetattr env \<noteq> 0 then
        Inr \<lparr>pr_state = DEVICE_STATUS_UNKNOWN, pr_reply = reply,
             pr_length = map_option (\<lambda>_. 0) len, pr_actions = []\<rparr>
      else if pg_write env = - 1 \<or> pg_tcdrain env \<noteq> 0 then
        Inr \<lparr>pr_state = DEVICE_STATUS_UNKNOWN, pr_reply = reply,
             pr_length = map_option (\<lambda>_. 0) len, pr_actions = [Write_TTY ANSI_CPR]\<rparr>
      else
        (case ping_loop (pg_tty_attr env) (pg_events env)
                \<lparr>pv_state = DEVICE_OFFLINE, pv_deadline = pg_timer env + cprtimeout,
                 pv_step = 0, pv_reply = reply, pv_eom = 0\<rparr> of
           Inl s \<Rightarrow> Inl s
         | Inr v \<Rightarrow>
             Inr \<lparr>pr_state = pv_state v, pr_reply = pv_reply v,
                  pr_length = map_option (\<lambda>_. int (pv_eom v)) len,
                  pr_actions = [Write_TTY ANSI_CPR]\<rparr>))"

section \<open>The mediator loop of wrap\<close>

record wrap_vars =
  w_timeout :: real
  w_polltimeoutms :: int
  w_received :: int
  w_start :: real
  w_state :: device_state_et
  w_txok :: int
  w_buffer :: "byte list"
  w_tty_attr :: termios
  w_revents0 :: "16 word"
  w_revents1 :: "16 word"
  w_sigwinch_pending :: int

text \<open>
  What the environment does during one iteration of the loop: the clock readings, the
  result of \<open>poll(2)\<close>, the probe, the reads on either descriptor, \<open>tcgetattr\<close>, whether
  SIGWINCH was delivered before the flag is sampled, and the two \<open>ioctl\<close> calls.
\<close>

record wrap_env =
  e_timer_start :: real
  e_pending :: int
  e_revents0 :: "16 word"
  e_revents1 :: "16 word"
  e_errno :: int
  e_ping :: ping_env
  e_tty_read :: rd
  e_tcgetattr :: int
  e_tty_attr :: termios
  e_child_read :: rd
  e_sigwinch :: bool
  e_ioctl_get :: int
  e_ioctl_set :: int
  e_timer_end :: real

text \<open>The loop variables as \<open>wrap\<close> initialises them. The buffer (\<open>BUFSIZ\<close> bytes of
  uninitialised memory in the source) and the raw attributes in \<open>tty_attr\<close> are
  parameters. The product \<open>1000 * timeout\<close> is exact: it is what the source computes in
  \<open>double\<close> when the timeout is a whole number of milliseconds, as for whole seconds; for
  another timeout the rounding of the product can move the truncation by one. The
  properties of the hangup and of the forwarded reply are stated without the number of
  milliseconds, so that they hold either way.\<close>

definition wrap_init :: "real \<Rightarrow> byte list \<Rightarrow> termios \<Rightarrow> wrap_vars" where
  "wrap_init timeout buffer raw_attr =
     \<lparr>w_timeout = timeout, w_polltimeoutms = trunc_int (1000 * timeout), w_received = 0,
      w_start = 0, w_state = DEVICE_OFFLINE, w_txok = 1, w_buffer = buffer,
      w_tty_attr = raw_attr, w_revents0 = 0, w_revents1 = 0, w_sigwinch_pending = 0\<rparr>"

text \<open>The polling timed out (lines 513 to 530).\<close>

definition wrap_timeout :: "real \<Rightarrow> ping_env \<Rightarrow> wrap_vars \<Rightarrow> stop + (wrap_vars \<times> action list)" where
  "wrap_timeout cprtimeout penv v =
     (case (if w_txok v \<noteq> 0 then
              (case ping_tty (w_buffer v) (Some (w_received v)) cprtimeout penv of
                 Inl s \<Rightarrow> Inl s
               | Inr pr \<Rightarrow>
                   (let received = (case pr_length pr of Some n \<Rightarrow> n | None \<Rightarrow> w_received v);
                        v1 = v\<lparr>w_state := pr_state pr, w_buffer := pr_reply pr,
                               w_received := received\<rparr>
                    in Inr (v1, pr_actions pr @
                              (if received > 0
                               then [Write_Child (take (nat received) (w_buffer v1))] else []))))
            else Inr (v\<lparr>w_state := DEVICE_OFFLINE\<rparr>, [])) of
        Inl s \<Rightarrow> Inl s
      | Inr (v1, acts) \<Rightarrow>
          (if w_state v1 = DEVICE_OFFLINE
           then Inr (v1\<lparr>w_timeout := - 1, w_polltimeoutms := - 1\<rparr>, acts @ [Kill SIGHUP])
           else Inr (v1\<lparr>w_polltimeoutms := trunc_int (1000 * w_timeout v1)\<rparr>, acts)))"

text \<open>Input from the terminal (lines 535 to 556), entered when \<open>pfds[0].revents\<close> is set.\<close>

definition wrap_tty :: "rd \<Rightarrow> int \<Rightarrow> termios \<Rightarrow> wrap_vars \<Rightarrow> stop + (wrap_vars ctl \<times> action list)" where
  "wrap_tty r tcgetattr_ret attr v =
     (if \<not> PFDALIVE (w_revents0 v) then Inr (Break v, [])
      else
        (let (received, data) = sys_read (length (w_buffer v)) r;
             v1 = v\<lparr>w_received := received, w_buffer := store (w_buffer v) data\<rparr>
         in if received \<le> 0 then Inr (Break v1, [Read_TTY])
            else
              (let v2 = (if tcgetattr_ret = 0 then v1\<lparr>w_tty_attr := attr\<rparr> else v1)
               in case (if c_iflag (w_tty_attr v2) AND IXOFF \<noteq> 0
                        then flow_control_preprocessor (w_buffer v2) (w_received v2) (w_txok v2)
                        else Inr (w_buffer v2, w_received v2, w_txok v2)) of
                    Inl s \<Rightarrow> Inl s
                  | Inr (bytes, len, txok) \<Rightarrow>
                      (let v3 = v2\<lparr>w_buffer := bytes, w_received := len, w_txok := txok\<rparr>;
                           acts = (if w_received v3 \<noteq> 0
                                   then [Write_Child (take (nat (w_received v3)) (w_buffer v3))]
                                   else []);
                           v4 = (if w_timeout v3 \<ge> 0
                                 then v3\<lparr>w_polltimeoutms := trunc_int (1000 * w_timeout v3)\<rparr>
                                 else v3)
                       in Inr (Continue (v4\<lparr>w_revents0 := 0\<rparr>), Read_TTY # acts)))))"

text \<open>Output from the program (lines 558 to 567).\<close>

definition wrap_child :: "rd \<Rightarrow> wrap_vars \<Rightarrow> wrap_vars ctl \<times> action list" where
  "wrap_child r v =
     (if \<not> PFDALIVE (w_revents1 v) then (Break v, [])
      else if w_txok v \<noteq> 0 \<and> w_revents1 v \<noteq> 0 then
        (let (received, data) = sys_read (length (w_buffer v)) r;
             v1 = v\<lparr>w_received := received, w_buffer := store (w_buffer v) data\<rparr>
         in if received \<le> 0 then (Break v1, [Read_Child])
            else (Continue (v1\<lparr>w_revents1 := 0\<rparr>),
                  [Read_Child, Write_TTY (take (nat received) (w_buffer v1))]))
      else (Continue v, []))"

text \<open>The window-size update (lines 574 to 584).\<close>

definition wrap_sigwinch :: "wrap_env \<Rightarrow> wrap_vars \<Rightarrow> wrap_vars \<times> action list" where
  "wrap_sigwinch e v =
     (if w_sigwinch_pending v \<noteq> 0 then
        (v\<lparr>w_sigwinch_pending := 0\<rparr>,
         if e_ioctl_get e = 0
         then Set_Winsize # (if e_ioctl_set e = 0 then [Kill SIGWINCH] else [])
         else [])
      else (v, []))"

text \<open>The adjustment after an interrupted \<open>poll(2)\<close> (lines 586 to 591): the elapsed time
  is cast to \<open>int\<close> first and multiplied by 1000 afterwards.\<close>

definition wrap_adjust :: "wrap_env \<Rightarrow> wrap_vars \<Rightarrow> wrap_vars" where
  "wrap_adjust e v =
     (if e_pending e = - 1 \<and> w_timeout v \<ge> 0
      then v\<lparr>w_polltimeoutms := w_polltimeoutms v - 1000 * trunc_int (e_timer_end e - w_start v)\<rparr>
      else v)"

text \<open>The start of an iteration (lines 502 to 510) and the arguments of \<open>poll(2)\<close>.\<close>

definition wrap_arm :: "wrap_env \<Rightarrow> wrap_vars \<Rightarrow> wrap_vars" where
  "wrap_arm e v =
     (if w_timeout v \<ge> 0
      then v\<lparr>w_polltimeoutms := (if w_polltimeoutms v < 0 then 0 else w_polltimeoutms v),
             w_start := e_timer_start e\<rparr>
      else v)"

definition wrap_nfds :: "wrap_vars \<Rightarrow> nat" where
  "wrap_nfds v = (if w_txok v \<noteq> 0 then 2 else 1)"

text \<open>\<open>poll(2)\<close> stores \<open>revents\<close> for the descriptors it was given, and a flag set by the
  signal handler while it waited is visible afterwards.\<close>

definition wrap_poll :: "wrap_env \<Rightarrow> wrap_vars \<Rightarrow> wrap_vars" where
  "wrap_poll e v =
     v\<lparr>w_revents0 := e_revents0 e,
       w_revents1 := (if wrap_nfds v = 2 then e_revents1 e else w_revents1 v),
       w_sigwinch_pending := (if e_sigwinch e then 1 else w_sigwinch_pending v)\<rparr>"

text \<open>The dispatch on the result of \<open>poll(2)\<close> (lines 512 to 572).\<close>

definition wrap_dispatch :: "real \<Rightarrow> wrap_env \<Rightarrow> wrap_vars \<Rightarrow> stop + (wrap_vars ctl \<times> action list)" where
  "wrap_dispatch cprtimeout e v =
     (if e_pending e = 0 then
        (case wrap_timeout cprtimeout (e_ping e) v of
           Inl s \<Rightarrow> Inl s
         | Inr (v1, acts) \<Rightarrow> Inr (Continue v1, acts))
      else if e_pending e > 0 then
        (case (if w_revents0 v \<noteq> 0
               then wrap_tty (e_tty_read e) (e_tcgetattr e) (e_tty_attr e) v
               else Inr (Continue v, [])) of
           Inl s \<Rightarrow> Inl s
         | Inr (Break v1, acts) \<Rightarrow> Inr (Break v1, acts)
         | Inr (Continue v1, acts) \<Rightarrow>
             (case wrap_child (e_child_read e) v1 of
                (c, acts') \<Rightarrow> Inr (c, acts @ acts')))
      else if e_errno e \<noteq> EINTR then Inr (Break v, [])
      else Inr (Continue v, []))"

text \<open>One iteration of the \<open>while (1)\<close> loop.\<close>

definition wrap_iter :: "real \<Rightarrow> wrap_env \<Rightarrow> wrap_vars \<Rightarrow> stop + (wrap_vars ctl \<times> action list)" where
  "wrap_iter cprtimeout e v =
     (let v0 = wrap_arm e v;
          p = Poll (wrap_nfds v0) (w_polltimeoutms v0)
      in case wrap_dispatch cprtimeout e (wrap_poll e v0) of
           Inl s \<Rightarrow> Inl s
         | Inr (Break v1, acts) \<Rightarrow> Inr (Break v1, p # acts)
         | Inr (Continue v1, acts) \<Rightarrow>
             (case wrap_sigwinch e v1 of
                (v2, acts') \<Rightarrow> Inr (Continue (wrap_adjust e v2), p # acts @ acts')))"

text \<open>
  The loop over the iterations the environment supplies. \<open>Break\<close> is the loop left;
  \<open>Continue\<close> is the loop still running when the script ends.
\<close>

fun wrap_loop :: "real \<Rightarrow> wrap_env list \<Rightarrow> wrap_vars \<Rightarrow> stop + (wrap_vars ctl \<times> action list)" where
  "wrap_loop cprtimeout [] v = Inr (Continue v, [])"
| "wrap_loop cprtimeout (e # es) v =
     (case wrap_iter cprtimeout e v of
        Inl s \<Rightarrow> Inl s
      | Inr (Break v1, acts) \<Rightarrow> Inr (Break v1, acts)
      | Inr (Continue v1, acts) \<Rightarrow>
          (case wrap_loop cprtimeout es v1 of
             Inl s \<Rightarrow> Inl s
           | Inr (c, acts') \<Rightarrow> Inr (c, acts @ acts')))"

text \<open>
  \<open>poll(2)\<close> with a negative timeout waits without limit, so it cannot report a timeout.
  An environment is feasible for a run when each of its iterations respects this.
\<close>

definition poll_feasible :: "wrap_env \<Rightarrow> wrap_vars \<Rightarrow> bool" where
  "poll_feasible e v = (e_pending e \<noteq> 0 \<or> 0 \<le> w_polltimeoutms (wrap_arm e v))"

fun run_feasible :: "real \<Rightarrow> wrap_env list \<Rightarrow> wrap_vars \<Rightarrow> bool" where
  "run_feasible cprtimeout [] v = True"
| "run_feasible cprtimeout (e # es) v =
     (poll_feasible e v \<and>
      (case wrap_iter cprtimeout e v of
         Inr (Continue v1, acts) \<Rightarrow> run_feasible cprtimeout es v1
       | _ \<Rightarrow> True))"

text \<open>The number of hangup signals sent to the program.\<close>

definition hangups :: "action list \<Rightarrow> nat" where
  "hangups acts = length (filter (\<lambda>a. a = Kill SIGHUP) acts)"

text \<open>Hangup detection is switched off: both timeouts are negative.\<close>

definition disarmed :: "wrap_vars \<Rightarrow> bool" where
  "disarmed v = (w_timeout v < 0 \<and> w_polltimeoutms v < 0)"

text \<open>
  An iteration is a silent timeout when \<open>poll(2)\<close> reports that the wait has timed out
  (nothing came from the terminal or the program) and the terminal is then classified as
  offline: the probe returns \<open>DEVICE_OFFLINE\<close>, no byte having answered it, or
  transmission is suspended and the probe is not sent. A run has a silent cycle when one
  of its iterations is a silent timeout.
\<close>

definition silent_timeout :: "real \<Rightarrow> wrap_env \<Rightarrow> wrap_vars \<Rightarrow> bool" where
  "silent_timeout cprtimeout e v =
     (e_pending e = 0 \<and>
      (w_txok v = 0 \<or>
       (case ping_tty (w_buffer v) (Some (w_received v)) cprtimeout (e_ping e) of
          Inl s \<Rightarrow> False
        | Inr pr \<Rightarrow> pr_state pr = DEVICE_OFFLINE)))"

fun silent_cycle :: "real \<Rightarrow> wrap_env list \<Rightarrow> wrap_vars \<Rightarrow> bool" where
  "silent_cycle cprtimeout [] v = False"
| "silent_cycle cprtimeout (e # es) v =
     (silent_timeout cprtimeout e v \<or>
      (case wrap_iter cprtimeout e v of
         Inr (Continue v1, acts) \<Rightarrow> silent_cycle cprtimeout es v1
       | _ \<Rightarrow> False))"

text \<open>Reading the program's output or writing to the terminal.\<close>

definition child_io :: "action \<Rightarrow> bool" where
  "child_io a = (case a of Read_Child \<Rightarrow> True | Write_TTY bs \<Rightarrow> True | _ \<Rightarrow> False)"

text \<open>
  A window of iterations during which transmission stays suspended: \<open>txok\<close> is zero
  before the first iteration and after each one.
\<close>

fun suspended_window :: "real \<Rightarrow> wrap_env list \<Rightarrow> wrap_vars \<Rightarrow> bool" where
  "suspended_window cprtimeout [] v = (w_txok v = 0)"
| "suspended_window cprtimeout (e # es) v =
     (w_txok v = 0 \<and>
      (case wrap_iter cprtimeout e v of
         Inr (Continue v1, acts) \<Rightarrow> suspended_window cprtimeout es v1
       | Inr (Break v1, acts) \<Rightarrow> w_txok v1 = 0
       | Inl s \<Rightarrow> True))"

section \<open>Replies to the probe\<close>

text \<open>
  A byte the prober drops: a control character other than ESC. A turn of the reply loop
  delivers a byte when \<open>poll(2)\<close> reports the descriptor readable and the read finds it;
  the turn is in time for a deadline when the loop condition holds with it: the
  milliseconds left, as computed, are at least one and fit an \<open>int\<close>. \<open>extension\<close> is
  what the XOFF bytes among the given ones add to the deadline, and turns that deliver
  the given bytes are timely when each of them is in time for the deadline in force at
  it: the one the probe starts with, moved by the XOFF bytes delivered before.
\<close>

definition ignored :: "byte \<Rightarrow> bool" where
  "ignored b = (b \<noteq> ESC \<and> ISCONTROL b)"

definition delivers :: "ping_event \<Rightarrow> byte \<Rightarrow> bool" where
  "delivers e b =
     (0 < pe_pending e \<and> PFDALIVE (pe_revents e) \<and>
      (case pe_read e of Rd_Data (x # xs) \<Rightarrow> x = b | _ \<Rightarrow> False))"





text \<open>
  The words of the specification: a coordinate is one to three decimal digits, and a
  report is ESC, \<open>[\<close>, a coordinate, \<open>;\<close>, a coordinate and \<open>R\<close>.
\<close>

definition digits :: "byte list \<Rightarrow> bool" where
  "digits ds = (ds \<noteq> [] \<and> length ds \<le> 3 \<and> (\<forall>d\<in>set ds. ISDIGIT d))"

definition cpr_report :: "byte list \<Rightarrow> byte list \<Rightarrow> byte list" where
  "cpr_report r c = ESC # 0x5B # r @ 0x3B # c @ [0x52]"

definition cpr_reports :: "byte list set" where
  "cpr_reports = {cpr_report r c | r c. digits r \<and> digits c}"

text \<open>The end of the reply is not ahead of the step, and ten bytes fit the buffer.\<close>

definition in_bounds :: "ping_vars \<Rightarrow> bool" where
  "in_bounds v = (int (pv_eom v) \<le> pv_step v \<and> pv_step v \<le> 9 \<and> CPRSIZE \<le> length (pv_reply v))"

section \<open>Scenarios\<close>

text \<open>
  A probe that is not answered (\<open>poll(2)\<close> times out), an iteration in which nothing
  happens until \<open>poll(2)\<close> times out, and loop variables with transmission suspended.
\<close>

definition no_reply :: ping_env where
  "no_reply =
     \<lparr>pg_tcgetattr = 0, pg_tty_attr = \<lparr>c_iflag = 0\<rparr>, pg_tcsetattr = 0, pg_write = 4,
      pg_tcdrain = 0, pg_timer = 0,
      pg_events = [\<lparr>pe_now = 0, pe_round = 0, pe_pending = 0, pe_revents = 0, pe_errno = 0, pe_read = Rd_Data []\<rparr>]\<rparr>"

definition quiet :: wrap_env where
  "quiet =
     \<lparr>e_timer_start = 0, e_pending = 0, e_revents0 = 0, e_revents1 = 0, e_errno = 0,
      e_ping = no_reply, e_tty_read = Rd_Data [], e_tcgetattr = 0,
      e_tty_attr = \<lparr>c_iflag = IXOFF\<rparr>, e_child_read = Rd_Data [], e_sigwinch = False,
      e_ioctl_get = 0, e_ioctl_set = 0, e_timer_end = 0\<rparr>"

definition suspended :: wrap_vars where
  "suspended = (wrap_init 1 [0, 0, 0, 0, 0, 0, 0, 0, 0, 0] \<lparr>c_iflag = IXOFF\<rparr>)\<lparr>w_txok := 0\<rparr>"

definition started :: wrap_vars where
  "started = wrap_init 1 [0, 0, 0, 0, 0, 0, 0, 0, 0, 0] \<lparr>c_iflag = IXOFF\<rparr>"

definition child_output :: wrap_env where
  "child_output = quiet\<lparr>e_pending := 1, e_revents1 := POLLIN, e_child_read := Rd_Data [0x41]\<rparr>"

text \<open>
  A terminal that answers a probe with the given bytes at once and stays silent
  afterwards; the bytes the mediator writes to the program; an iteration whose probe is
  answered, and one in which terminal input arrives.
\<close>

definition byte_event :: "byte \<Rightarrow> ping_event" where
  "byte_event b = \<lparr>pe_now = 0, pe_round = 0, pe_pending = 1, pe_revents = POLLIN, pe_errno = 0, pe_read = Rd_Data [b]\<rparr>"

definition silence :: ping_event where
  "silence = \<lparr>pe_now = 0, pe_round = 0, pe_pending = 0, pe_revents = 0, pe_errno = 0, pe_read = Rd_Data []\<rparr>"

definition answering :: "byte list \<Rightarrow> ping_env" where
  "answering bs = no_reply\<lparr>pg_events := map byte_event bs @ [silence]\<rparr>"


definition probe_answered :: "byte list \<Rightarrow> wrap_env" where
  "probe_answered bs = quiet\<lparr>e_ping := answering bs\<rparr>"


section \<open>Properties of the flow-control filter\<close>

lemma fcp_loop_spec:
  "cursor \<le> n \<Longrightarrow> len \<le> int (length bytes) \<Longrightarrow> int n \<le> len \<Longrightarrow>
   \<exists>bytes' cursor'. fcp_loop n len bytes cursor txok
        = Inr (bytes', cursor', fold flow_update (drop n (take (nat len) bytes)) txok)
     \<and> length bytes' = length bytes
     \<and> cursor' \<le> nat len
     \<and> take cursor' bytes' = take cursor bytes @ filter is_data (drop n (take (nat len) bytes))
     \<and> drop (nat len) bytes' = drop (nat len) bytes"
proof (induction n len bytes cursor txok rule: fcp_loop.induct)
  case (1 n len bytes cursor txok)
  show ?case
  proof (cases "int n < len")
    case False
    with "1.prems" have "nat len = n" by simp
    with False "1.prems" show ?thesis
      by (simp add: fcp_loop.simps)
  next
    case True
    with "1.prems" have inb: "n < length bytes" "cursor < length bytes" "n < nat len" by auto
    have dr: "drop n (take (nat len) bytes) = bytes ! n # drop (Suc n) (take (nat len) bytes)"
      using inb by (metis Cons_nth_drop_Suc length_take min_less_iff_conj nth_take)
    show ?thesis
    proof (cases "bytes ! n \<noteq> XON \<and> bytes ! n \<noteq> XOFF")
      case data: True
      let ?b = "bytes[cursor := bytes ! n]"
      have a: "cursor + 1 \<le> n + 1" "len \<le> int (length ?b)" "int (n + 1) \<le> len"
        using "1.prems" True by auto
      from "1.IH"(1)[OF True _ data a] inb
      obtain bytes' cursor' where
        r: "fcp_loop (n + 1) len ?b (cursor + 1) txok
              = Inr (bytes', cursor', fold flow_update (drop (n + 1) (take (nat len) ?b)) txok)"
         "length bytes' = length ?b" "cursor' \<le> nat len"
         "take cursor' bytes' = take (cursor + 1) ?b @ filter is_data (drop (n + 1) (take (nat len) ?b))"
         "drop (nat len) bytes' = drop (nat len) ?b"
        by auto
      have d1: "drop (Suc n) (take (nat len) ?b) = drop (Suc n) (take (nat len) bytes)"
        using "1.prems" by (simp add: take_update_swap drop_take)
      have t1: "take (Suc cursor) ?b = take cursor bytes @ [bytes ! n]"
        using inb by (simp add: take_Suc_conv_app_nth)
      have d2: "drop (nat len) ?b = drop (nat len) bytes"
        using "1.prems" inb by simp
      have fu: "flow_update (bytes ! n) txok = txok"
        using data by (simp add: flow_update_def)
      show ?thesis
        using r data True inb
        by (subst fcp_loop.simps) (simp add: d1 t1 d2 dr is_data_def fu)
    next
      case ctl: False
      let ?t = "if bytes ! n = XON then 1 else (0::int)"
      have a: "cursor \<le> n + 1" "len \<le> int (length bytes)" "int (n + 1) \<le> len"
        using "1.prems" True by auto
      from "1.IH"(2)[OF True _ ctl a] inb
      obtain bytes' cursor' where
        r: "fcp_loop (n + 1) len bytes cursor ?t
              = Inr (bytes', cursor', fold flow_update (drop (n + 1) (take (nat len) bytes)) ?t)"
         "length bytes' = length bytes" "cursor' \<le> nat len"
         "take cursor' bytes' = take cursor bytes @ filter is_data (drop (n + 1) (take (nat len) bytes))"
         "drop (nat len) bytes' = drop (nat len) bytes"
        by auto
      have fu: "flow_update (bytes ! n) txok = ?t"
        using ctl by (auto simp add: flow_update_def)
      show ?thesis
        using r ctl True inb
        by (subst fcp_loop.simps) (auto simp add: dr is_data_def fu)
    qed
  qed
qed

lemma fcp_loop_oob:
  "int (length bytes) < len \<Longrightarrow> n \<le> length bytes \<Longrightarrow>
   fcp_loop n len bytes cursor txok = Inl Out_Of_Bounds"
proof (induction n len bytes cursor txok rule: fcp_loop.induct)
  case (1 n len bytes cursor txok)
  from "1.prems" have lt: "int n < len" by simp
  show ?case
  proof (cases "n < length bytes \<and> cursor < length bytes")
    case False
    with lt show ?thesis by (subst fcp_loop.simps) auto
  next
    case True
    show ?thesis
    proof (cases "bytes ! n \<noteq> XON \<and> bytes ! n \<noteq> XOFF")
      case data: True
      have "fcp_loop (n + 1) len (bytes[cursor := bytes ! n]) (cursor + 1) txok = Inl Out_Of_Bounds"
        using "1.IH"(1)[OF lt True data] "1.prems" True by simp
      with lt True data show ?thesis by (subst fcp_loop.simps) simp
    next
      case ctl: False
      have "fcp_loop (n + 1) len bytes cursor (if bytes ! n = XON then 1 else 0) = Inl Out_Of_Bounds"
        using "1.IH"(2)[OF lt True ctl] "1.prems" True by simp
      with lt True ctl show ?thesis by (subst fcp_loop.simps) auto
    qed
  qed
qed

lemma fcp_loop_clean:
  "cursor = n \<Longrightarrow> len = int m \<Longrightarrow> m \<le> length bytes \<Longrightarrow>
   \<forall>b\<in>set (take m bytes). is_data b \<Longrightarrow>
   fcp_loop n len bytes cursor txok = Inr (bytes, max n m, txok)"
proof (induction n len bytes cursor txok rule: fcp_loop.induct)
  case (1 n len bytes cursor txok)
  show ?case
  proof (cases "int n < len")
    case False
    with "1.prems" show ?thesis by (subst fcp_loop.simps) (simp add: max_def)
  next
    case True
    with "1.prems" have inb: "n < length bytes \<and> cursor < length bytes" and nm: "n < m" by auto
    have "bytes ! n \<in> set (take m bytes)"
      using nm "1.prems" by (metis in_set_conv_nth length_take min.absorb2 nth_take)
    with "1.prems" have data: "bytes ! n \<noteq> XON \<and> bytes ! n \<noteq> XOFF"
      by (auto simp: is_data_def)
    have same: "bytes[cursor := bytes ! n] = bytes"
      using "1.prems" by simp
    have "fcp_loop (n + 1) len (bytes[cursor := bytes ! n]) (cursor + 1) txok
            = Inr (bytes[cursor := bytes ! n], max (n + 1) m, txok)"
      using "1.IH"(1)[OF True inb data] "1.prems" by (simp add: same)
    with True inb data nm show ?thesis
      by (subst fcp_loop.simps) (simp add: same max_def)
  qed
qed

lemma fcp_negative:
  "len \<le> 0 \<Longrightarrow> flow_control_preprocessor bytes len txok = Inr (bytes, 0, txok)"
  by (simp add: flow_control_preprocessor_def fcp_loop.simps)

lemma fcp_result:
  assumes "0 \<le> len" and "len \<le> int (length bytes)"
  shows "\<exists>bytes' cursor'. flow_control_preprocessor bytes len txok
            = Inr (bytes', int cursor', fold flow_update (take (nat len) bytes) txok)
     \<and> length bytes' = length bytes
     \<and> cursor' \<le> nat len
     \<and> take cursor' bytes' = filter is_data (take (nat len) bytes)
     \<and> drop (nat len) bytes' = drop (nat len) bytes"
proof -
  from fcp_loop_spec[of 0 0 len bytes txok] assms
  obtain bytes' cursor' where
    r: "fcp_loop 0 len bytes 0 txok = Inr (bytes', cursor', fold flow_update (take (nat len) bytes) txok)"
       "length bytes' = length bytes" "cursor' \<le> nat len"
       "take cursor' bytes' = filter is_data (take (nat len) bytes)"
       "drop (nat len) bytes' = drop (nat len) bytes"
    by auto
  then show ?thesis
    by (simp add: flow_control_preprocessor_def)
qed

text \<open>
  Claim C10. The flow-control filter is idempotent: whenever it returns, applying it
  again to the buffer, the length and the flag it returned gives the same buffer, the
  same length and the same flag; the bytes it returned hold no XON and no XOFF.
\<close>

theorem flow_control_idempotent:
  assumes "flow_control_preprocessor bytes len txok = Inr (bytes', len', txok')"
  shows "flow_control_preprocessor bytes' len' txok' = Inr (bytes', len', txok')
         \<and> XON \<notin> set (take (nat len') bytes') \<and> XOFF \<notin> set (take (nat len') bytes')"
proof (cases "len \<le> 0")
  case True
  with assms fcp_negative[OF True, of bytes txok] show ?thesis
    by (simp add: fcp_negative)
next
  case pos: False
  show ?thesis
  proof (cases "len \<le> int (length bytes)")
    case False
    then have "fcp_loop 0 len bytes 0 txok = Inl Out_Of_Bounds"
      by (intro fcp_loop_oob) simp_all
    with assms show ?thesis by (simp add: flow_control_preprocessor_def)
  next
    case True
    from fcp_result[OF _ True, of txok] pos assms
    obtain c where
      r: "len' = int c" "length bytes' = length bytes" "c \<le> nat len"
         "take c bytes' = filter is_data (take (nat len) bytes)"
      by auto
    have clean: "\<forall>b\<in>set (take c bytes'). is_data b"
      using r(4) by simp
    have cl: "c \<le> length bytes'" using r True by simp
    have "fcp_loop 0 (int c) bytes' 0 txok' = Inr (bytes', max 0 c, txok')"
      by (rule fcp_loop_clean[OF refl refl cl clean])
    then have "flow_control_preprocessor bytes' len' txok' = Inr (bytes', len', txok')"
      using r(1) by (simp add: flow_control_preprocessor_def)
    moreover have "XON \<notin> set (take (nat len') bytes') \<and> XOFF \<notin> set (take (nat len') bytes')"
      using clean r(1) by (auto simp: is_data_def)
    ultimately show ?thesis by simp
  qed
qed

theorem flow_control_idempotent_witness:
  "flow_control_preprocessor [0x41, 0x13, 0x42, 0x11, 0x43] 5 0
     = Inr ([0x41, 0x42, 0x43, 0x11, 0x43], 3, 1)
   \<and> flow_control_preprocessor [0x41, 0x42, 0x43, 0x11, 0x43] 3 1
     = Inr ([0x41, 0x42, 0x43, 0x11, 0x43], 3, 1)"
proof -
  have a: "flow_control_preprocessor [0x41, 0x13, 0x42, 0x11, 0x43] 5 0
             = Inr ([0x41, 0x42, 0x43, 0x11, 0x43], 3, 1)"
    by (simp add: flow_control_preprocessor_def fcp_loop.simps XON_def XOFF_def)
  from flow_control_idempotent[OF a] a show ?thesis by simp
qed

lemma fold_flow_data:
  "\<forall>b\<in>set xs. is_data b \<Longrightarrow> fold flow_update xs t = t"
  by (induction xs arbitrary: t) (simp_all add: flow_update_def is_data_def)

lemma fold_flow_last:
  "filter (\<lambda>x. \<not> is_data x) xs = p @ [b] \<Longrightarrow>
   fold flow_update xs t = (if b = XON then 1 else 0)"
proof (induction xs arbitrary: p b rule: rev_induct)
  case Nil
  then show ?case by simp
next
  case (snoc x xs)
  show ?case
  proof (cases "is_data x")
    case True
    with snoc.prems have "filter (\<lambda>x. \<not> is_data x) xs = p @ [b]" by simp
    from snoc.IH[OF this] True show ?thesis
      by (simp add: flow_update_def is_data_def)
  next
    case False
    with snoc.prems have "x = b" by simp
    with False show ?thesis
      by (auto simp: flow_update_def is_data_def)
  qed
qed

lemma filter_data_length:
  "(\<forall>b\<in>set xs. is_data b) \<Longrightarrow> filter is_data xs = xs"
  by simp

lemma wrap_tty_forwards:
  assumes alive: "PFDALIVE (w_revents0 v)" and ne: "d \<noteq> []"
    and fit: "length d \<le> length (w_buffer v)"
  shows "\<exists>v'. wrap_tty (Rd_Data d) 0 a v
           = Inr (Continue v',
                  Read_TTY # (if c_iflag a AND IXOFF \<noteq> 0
                              then (if filter is_data d = [] then [] else [Write_Child (filter is_data d)])
                              else [Write_Child d]))
         \<and> w_txok v' = (if c_iflag a AND IXOFF \<noteq> 0 then fold flow_update d (w_txok v) else w_txok v)"
proof -
  let ?buf = "store (w_buffer v) d"
  have rd: "sys_read (length (w_buffer v)) (Rd_Data d) = (int (length d), d)"
    using fit by simp
  have pos: "\<not> int (length d) \<le> 0" using ne by simp
  have tk: "take (length d) ?buf = d" by (simp add: store_def)
  have ln: "int (length d) \<le> int (length ?buf)" using fit by (simp add: store_def)
  show ?thesis
  proof (cases "c_iflag a AND IXOFF \<noteq> 0")
    case False
    then show ?thesis
      using alive pos tk ne unfolding wrap_tty_def rd Let_def by simp
  next
    case True
    from fcp_result[OF _ ln, of "w_txok v"] tk
    obtain bytes' cursor' where
      f: "flow_control_preprocessor ?buf (int (length d)) (w_txok v)
            = Inr (bytes', int cursor', fold flow_update d (w_txok v))"
      and t: "take cursor' bytes' = filter is_data d"
      and c: "cursor' \<le> length d" and l: "length bytes' = length ?buf"
      by auto
    have "length (take cursor' bytes') = cursor'"
      using c l ln by simp
    with t have c0: "cursor' = length (filter is_data d)" by simp
    have e: "(cursor' = 0) = (filter is_data d = [])" using c0 by simp
    show ?thesis
      using alive pos True unfolding wrap_tty_def rd Let_def by (simp add: f t e)
  qed
qed

text \<open>
  Claim C1. For a buffer and a length within it, \<open>flow_control_preprocessor\<close> returns;
  the new length is between 0 and the old one; the first bytes of the buffer, up to the
  new length, are the old ones with every XON and XOFF removed, in their order; the flag
  is the old flag updated by each XON and XOFF in order, so after a buffer with such bytes
  it reflects the last of them, and after a buffer without any it is unchanged (as is
  the length). In the mediator, terminal input that was read is written to the program
  filtered in this way when IXOFF is set, and as it is otherwise; nothing is written when
  the filter leaves no byte.
\<close>

theorem flow_control_filter:
  assumes "0 \<le> len" and "len \<le> int (length bytes)"
  shows "\<exists>bytes' len' txok'.
           flow_control_preprocessor bytes len txok = Inr (bytes', len', txok')
         \<and> 0 \<le> len' \<and> len' \<le> len
         \<and> take (nat len') bytes' = filter is_data (take (nat len) bytes)
         \<and> txok' = fold flow_update (take (nat len) bytes) txok
         \<and> (\<forall>p b. filter (\<lambda>x. \<not> is_data x) (take (nat len) bytes) = p @ [b] \<longrightarrow>
               txok' = (if b = XON then 1 else 0))
         \<and> ((\<forall>b\<in>set (take (nat len) bytes). is_data b) \<longrightarrow> txok' = txok \<and> len' = len)
         \<and> (\<forall>v d a. PFDALIVE (w_revents0 v) \<and> d \<noteq> [] \<and> length d \<le> length (w_buffer v) \<longrightarrow>
               (\<exists>v'. wrap_tty (Rd_Data d) 0 a v
                  = Inr (Continue v',
                         Read_TTY # (if c_iflag a AND IXOFF \<noteq> 0
                                     then (if filter is_data d = [] then []
                                           else [Write_Child (filter is_data d)])
                                     else [Write_Child d]))))"
proof -
  let ?S = "take (nat len) bytes"
  from fcp_result[OF assms, of txok]
  obtain bytes' cursor' where
    f: "flow_control_preprocessor bytes len txok = Inr (bytes', int cursor', fold flow_update ?S txok)"
    and c: "cursor' \<le> nat len"
    and t: "take cursor' bytes' = filter is_data ?S"
    and l: "length bytes' = length bytes"
    by blast
  have "length (take cursor' bytes') = cursor'"
    using c l assms by simp
  with t have c0: "cursor' = length (filter is_data ?S)" by simp
  have b1: "0 \<le> int cursor' \<and> int cursor' \<le> len" using c assms by simp
  have t1: "take (nat (int cursor')) bytes' = filter is_data ?S" using t by simp
  have all: "(\<forall>b\<in>set ?S. is_data b) \<longrightarrow> fold flow_update ?S txok = txok \<and> int cursor' = len"
  proof
    assume a: "\<forall>b\<in>set ?S. is_data b"
    then have "filter is_data ?S = ?S" by simp
    with c0 assms have "int cursor' = len" by simp
    with fold_flow_data[OF a] show "fold flow_update ?S txok = txok \<and> int cursor' = len" by simp
  qed
  have last: "\<forall>p b. filter (\<lambda>x. \<not> is_data x) ?S = p @ [b] \<longrightarrow>
               fold flow_update ?S txok = (if b = XON then 1 else 0)"
    using fold_flow_last by blast
  have w: "\<forall>v d a. PFDALIVE (w_revents0 v) \<and> d \<noteq> [] \<and> length d \<le> length (w_buffer v) \<longrightarrow>
               (\<exists>v'. wrap_tty (Rd_Data d) 0 a v
                  = Inr (Continue v',
                         Read_TTY # (if c_iflag a AND IXOFF \<noteq> 0
                                     then (if filter is_data d = [] then []
                                           else [Write_Child (filter is_data d)])
                                     else [Write_Child d])))"
  proof (intro allI impI)
    fix v :: wrap_vars and d :: "byte list" and a :: termios
    assume "PFDALIVE (w_revents0 v) \<and> d \<noteq> [] \<and> length d \<le> length (w_buffer v)"
    then have h: "PFDALIVE (w_revents0 v)" "d \<noteq> []" "length d \<le> length (w_buffer v)" by simp_all
    from wrap_tty_forwards[OF h, of a]
    show "\<exists>v'. wrap_tty (Rd_Data d) 0 a v
                  = Inr (Continue v',
                         Read_TTY # (if c_iflag a AND IXOFF \<noteq> 0
                                     then (if filter is_data d = [] then []
                                           else [Write_Child (filter is_data d)])
                                     else [Write_Child d]))"
      by blast
  qed
  show ?thesis
    apply (rule exI[of _ bytes'])
    apply (rule exI[of _ "int cursor'"])
    apply (rule exI[of _ "fold flow_update ?S txok"])
    apply (intro conjI)
           apply (rule f)
          apply (rule b1[THEN conjunct1])
         apply (rule b1[THEN conjunct2])
        apply (rule t1)
       apply (rule refl)
      apply (rule last)
     apply (rule all)
    apply (rule w)
    done
qed

theorem flow_control_filter_witness:
  "flow_control_preprocessor [0x41, 0x13, 0x42, 0x11, 0x43, 0x13, 0x44] 6 1
     = Inr ([0x41, 0x42, 0x43, 0x11, 0x43, 0x13, 0x44], 3, 0)
   \<and> filter is_data (take (nat 6) [0x41, 0x13, 0x42, 0x11, 0x43, 0x13, 0x44]) = [0x41, 0x42, 0x43]"
proof -
  have e: "flow_control_preprocessor [0x41, 0x13, 0x42, 0x11, 0x43, 0x13, 0x44] 6 1
     = Inr ([0x41, 0x42, 0x43, 0x11, 0x43, 0x13, 0x44], 3, 0)"
    by (simp add: flow_control_preprocessor_def fcp_loop.simps XON_def XOFF_def)
  have h: "(0::int) \<le> 6" "(6::int) \<le> int (length [0x41, 0x13, 0x42, 0x11, 0x43, 0x13, 0x44 :: byte])"
    by simp_all
  from flow_control_filter[OF h, of 1]
  obtain bytes' len' txok' where
    "flow_control_preprocessor [0x41, 0x13, 0x42, 0x11, 0x43, 0x13, 0x44] 6 1 = Inr (bytes', len', txok')"
    "take (nat len') bytes' = filter is_data (take (nat 6) [0x41, 0x13, 0x42, 0x11, 0x43, 0x13, 0x44])"
    by blast
  with e show ?thesis by simp
qed

section \<open>The prober and the deadline\<close>

lemma sint_consts [simp]:
  "sint XOFF = 19" "sint XON = 17" "sint ESC = 27"
  by (simp_all add: XOFF_def XON_def ESC_def)

lemma XOFF_ignored: "XOFF \<noteq> ESC \<and> ISCONTROL XOFF"
  by (simp add: XOFF_def ESC_def ISCONTROL_def)

text \<open>
  Claim C8. In a turn of the reply loop in which a byte arrives and that byte is XOFF:
  when the attributes fetched before raw mode have IXOFF set, the deadline grows by 0.1
  seconds (one tenth; the rounding of the \<open>double\<close> is not modelled) and the loop goes on
  with the step, the reply buffer and its end unchanged; when IXOFF is clear the byte is
  dropped in the same way and the deadline stays.
\<close>

theorem xoff_extends_deadline:
  assumes "0 < pe_pending e" and "PFDALIVE (pe_revents e)"
    and "pe_read e = Rd_Data (XOFF # rest)"
  shows "(c_iflag tty_attr AND IXOFF \<noteq> 0 \<longrightarrow>
            ping_body tty_attr e v
              = Inr (Continue (v\<lparr>pv_state := DEVICE_ONLINE, pv_deadline := pv_deadline v + 1 / 10\<rparr>)))
       \<and> (c_iflag tty_attr AND IXOFF = 0 \<longrightarrow>
            ping_body tty_attr e v = Inr (Continue (v\<lparr>pv_state := DEVICE_ONLINE\<rparr>)))"
  using assms XOFF_ignored by (simp add: ping_body_def)

theorem xoff_extends_deadline_witness:
  "ping_body \<lparr>c_iflag = 0x1400\<rparr>
      \<lparr>pe_now = 0, pe_round = 0, pe_pending = 1, pe_revents = POLLIN, pe_errno = 0, pe_read = Rd_Data [XOFF]\<rparr>
      \<lparr>pv_state = DEVICE_OFFLINE, pv_deadline = 1 / 5, pv_step = 3, pv_reply = [0x1B, 0x5B, 0x32, 0, 0, 0, 0, 0, 0, 0], pv_eom = 3\<rparr>
    = Inr (Continue \<lparr>pv_state = DEVICE_ONLINE, pv_deadline = 3 / 10, pv_step = 3, pv_reply = [0x1B, 0x5B, 0x32, 0, 0, 0, 0, 0, 0, 0], pv_eom = 3\<rparr>)"
  using xoff_extends_deadline[of "\<lparr>pe_now = 0, pe_round = 0, pe_pending = 1, pe_revents = POLLIN, pe_errno = 0, pe_read = Rd_Data [XOFF]\<rparr>" "[]" "\<lparr>c_iflag = 0x1400\<rparr>"
     "\<lparr>pv_state = DEVICE_OFFLINE, pv_deadline = 1 / 5, pv_step = 3, pv_reply = [0x1B, 0x5B, 0x32, 0, 0, 0, 0, 0, 0, 0], pv_eom = 3\<rparr>"]
  by (simp add: PFDALIVE_def POLLIN_def POLLERR_def POLLHUP_def POLLNVAL_def IXOFF_def)

lemma wrap_sigwinch_acts:
  "wrap_sigwinch e v = (v', acts) \<Longrightarrow>
     filter (\<lambda>a. a \<noteq> Set_Winsize \<and> a \<noteq> Kill SIGWINCH) acts = []
   \<and> w_txok v' = w_txok v \<and> w_timeout v' = w_timeout v \<and> w_polltimeoutms v' = w_polltimeoutms v
   \<and> w_state v' = w_state v"
  by (auto simp: wrap_sigwinch_def split: if_splits)

text \<open>
  Claim C7. When \<open>poll(2)\<close> times out while \<open>txok\<close> is zero, the iteration classifies
  the device as offline, sends SIGHUP once and sets both timeouts to -1; besides the poll
  and the hangup it performs nothing but a possible window-size update, so nothing is
  written to the terminal, and the result does not depend on the environment of the
  prober: \<open>ping_tty\<close> is not called.
\<close>

theorem timeout_while_suspended:
  assumes "e_pending e = 0" and "w_txok v = 0"
  shows "\<exists>v' acts. wrap_iter cprtimeout e v = Inr (Continue v', acts)
       \<and> filter (\<lambda>a. a \<noteq> Set_Winsize \<and> a \<noteq> Kill SIGWINCH) acts
           = [Poll 1 (w_polltimeoutms (wrap_arm e v)), Kill SIGHUP]
       \<and> w_state v' = DEVICE_OFFLINE \<and> w_timeout v' = - 1 \<and> w_polltimeoutms v' = - 1
       \<and> wrap_iter cprtimeout (e\<lparr>e_ping := penv\<rparr>) v = wrap_iter cprtimeout e v"
proof -
  let ?v0 = "wrap_poll e (wrap_arm e v)"
  have tx: "w_txok ?v0 = 0" "w_txok (wrap_arm e v) = 0"
    using assms by (simp_all add: wrap_poll_def wrap_arm_def)
  let ?v1 = "?v0\<lparr>w_state := DEVICE_OFFLINE, w_timeout := - 1, w_polltimeoutms := - 1\<rparr>"
  have t: "wrap_timeout cprtimeout p ?v0 = Inr (?v1, [Kill SIGHUP])" for p
    using tx by (simp add: wrap_timeout_def)
  have d: "wrap_dispatch cprtimeout (e\<lparr>e_ping := p\<rparr>) ?v0 = Inr (Continue ?v1, [Kill SIGHUP])" for p
    using assms t by (simp add: wrap_dispatch_def)
  obtain v2 acts2 where s: "wrap_sigwinch e ?v1 = (v2, acts2)" by (cases "wrap_sigwinch e ?v1")
  have sw: "wrap_sigwinch (e\<lparr>e_ping := p\<rparr>) = wrap_sigwinch e" for p
    by (rule ext) (simp add: wrap_sigwinch_def)
  have ad: "wrap_adjust (e\<lparr>e_ping := p\<rparr>) = wrap_adjust e" for p
    by (rule ext) (simp add: wrap_adjust_def)
  have ar: "wrap_arm (e\<lparr>e_ping := p\<rparr>) = wrap_arm e" "wrap_poll (e\<lparr>e_ping := p\<rparr>) = wrap_poll e" for p
    by (rule ext, simp add: wrap_arm_def, rule ext, simp add: wrap_poll_def)
  have it: "wrap_iter cprtimeout (e\<lparr>e_ping := p\<rparr>) v
          = Inr (Continue (wrap_adjust e v2), Poll 1 (w_polltimeoutms (wrap_arm e v)) # Kill SIGHUP # acts2)" for p
    using d[of p] s tx by (simp add: wrap_iter_def sw ad ar wrap_nfds_def)
  have it0: "wrap_iter cprtimeout e v 
          = Inr (Continue (wrap_adjust e v2), Poll 1 (w_polltimeoutms (wrap_arm e v)) # Kill SIGHUP # acts2)"
    using it[of "e_ping e"] by simp
  from wrap_sigwinch_acts[OF s]
  have f: "filter (\<lambda>a. a \<noteq> Set_Winsize \<and> a \<noteq> Kill SIGWINCH) acts2 = []"
    and k: "w_timeout v2 = - 1" "w_polltimeoutms v2 = - 1" "w_state v2 = DEVICE_OFFLINE"
    by simp_all
  have adj: "wrap_adjust e v2 = v2"
    using assms by (simp add: wrap_adjust_def)
  show ?thesis
    using it0 it[of penv] f k adj by (simp add: SIGHUP_def SIGWINCH_def)
qed

section \<open>Transmission suspended\<close>

lemma wrap_timeout_io:
  assumes "wrap_timeout cprtimeout p v = Inr (v', acts)"
  shows "w_txok v' = w_txok v" and "w_txok v = 0 \<Longrightarrow> acts = [Kill SIGHUP]"
  using assms
  by (auto simp: wrap_timeout_def Let_def split: if_splits sum.splits option.splits)

lemma wrap_tty_io:
  assumes "wrap_tty r g a v = Inr (c, acts)"
  shows "\<forall>x\<in>set acts. \<not> child_io x"
    and "PFDALIVE (w_revents0 v) \<Longrightarrow> Read_TTY \<in> set acts"
  using assms
  by (auto simp: wrap_tty_def Let_def child_io_def split: if_splits sum.splits prod.splits)

lemma wrap_child_io:
  assumes "wrap_child r v = (c, acts)"
  shows "w_txok (ctl_vars c) = w_txok v" and "w_txok v = 0 \<Longrightarrow> acts = []"
    and "\<forall>x\<in>set acts. x = Read_Child \<or> (\<exists>bs. x = Write_TTY bs)"
  using assms
  by (auto simp: wrap_child_def Let_def split: if_splits prod.splits)

lemma wrap_sigwinch_io:
  assumes "wrap_sigwinch e v = (v', acts)"
  shows "w_txok v' = w_txok v" and "\<forall>x\<in>set acts. \<not> child_io x"
  using assms by (auto simp: wrap_sigwinch_def child_io_def split: if_splits)

lemma wrap_adjust_txok: "w_txok (wrap_adjust e v) = w_txok v"
  by (simp add: wrap_adjust_def)

lemma wrap_prep_txok: "w_txok (wrap_poll e (wrap_arm e v)) = w_txok v"
  by (simp add: wrap_poll_def wrap_arm_def)

lemma wrap_dispatch_io:
  assumes "wrap_dispatch cprtimeout e v = Inr (c, acts)"
  shows "(\<exists>x\<in>set acts. child_io x) \<Longrightarrow> w_txok (ctl_vars c) \<noteq> 0"
proof -
  assume ex: "\<exists>x\<in>set acts. child_io x"
  consider (timeout) "e_pending e = 0" | (ready) "e_pending e > 0" | (err) "e_pending e < 0"
    by linarith
  then show ?thesis
  proof cases
    case timeout
    with assms obtain v1 where t: "wrap_timeout cprtimeout (e_ping e) v = Inr (v1, acts)" and c: "c = Continue v1"
      by (auto simp: wrap_dispatch_def split: sum.splits)
    from wrap_timeout_io[OF t] ex c show ?thesis
      by (cases "w_txok v = 0") (auto simp: child_io_def)
  next
    case ready
    show ?thesis
    proof (cases "w_revents0 v \<noteq> 0")
      case False
      with ready assms obtain ch: "wrap_child (e_child_read e) v = (c, acts)"
        by (auto simp: wrap_dispatch_def split: sum.splits prod.splits)
      from wrap_child_io[OF ch] ex show ?thesis by (cases "w_txok v = 0") auto
    next
      case True
      with ready assms obtain c1 a1 where
        t: "wrap_tty (e_tty_read e) (e_tcgetattr e) (e_tty_attr e) v = Inr (c1, a1)"
        by (auto simp: wrap_dispatch_def split: sum.splits)
      show ?thesis
      proof (cases c1)
        case (Break v1)
        with t True ready assms have "acts = a1"
          by (simp add: wrap_dispatch_def)
        with wrap_tty_io(1)[OF t] ex show ?thesis by auto
      next
        case (Continue v1)
        with t True ready assms obtain a2 where
          ch: "wrap_child (e_child_read e) v1 = (c, a2)" and a: "acts = a1 @ a2"
          by (auto simp: wrap_dispatch_def split: prod.splits)
        from ex a wrap_tty_io(1)[OF t] have "a2 \<noteq> []" by auto
        with wrap_child_io[OF ch] show ?thesis by auto
      qed
    qed
  next
    case err
    with assms have "acts = []"
      by (auto simp: wrap_dispatch_def split: if_splits)
    with ex show ?thesis by simp
  qed
qed

lemma wrap_iter_io:
  assumes "wrap_iter cprtimeout e v = Inr (c, acts)"
  shows "\<exists>rest. acts = Poll (if w_txok v \<noteq> 0 then 2 else 1) (w_polltimeoutms (wrap_arm e v)) # rest"
    and "(\<exists>x\<in>set acts. child_io x) \<Longrightarrow> w_txok (ctl_vars c) \<noteq> 0"
proof -
  let ?v0 = "wrap_poll e (wrap_arm e v)"
  let ?p = "Poll (wrap_nfds (wrap_arm e v)) (w_polltimeoutms (wrap_arm e v))"
  have n: "wrap_nfds (wrap_arm e v) = (if w_txok v \<noteq> 0 then 2 else 1)"
    by (simp add: wrap_nfds_def wrap_arm_def)
  from assms obtain c1 a1 where d: "wrap_dispatch cprtimeout e ?v0 = Inr (c1, a1)"
    by (auto simp: wrap_iter_def Let_def split: sum.splits)
  have np: "\<not> child_io ?p" by (simp add: child_io_def)
  show "\<exists>rest. acts = Poll (if w_txok v \<noteq> 0 then 2 else 1) (w_polltimeoutms (wrap_arm e v)) # rest"
    using assms d n by (cases c1) (auto simp: wrap_iter_def Let_def split: prod.splits)
  assume ex: "\<exists>x\<in>set acts. child_io x"
  show "w_txok (ctl_vars c) \<noteq> 0"
  proof (cases c1)
    case (Break v1)
    with assms d have "c = c1" "acts = ?p # a1"
      by (simp_all add: wrap_iter_def Let_def)
    with ex np wrap_dispatch_io[OF d] show ?thesis by auto
  next
    case (Continue v1)
    obtain v2 a2 where s: "wrap_sigwinch e v1 = (v2, a2)" by (cases "wrap_sigwinch e v1")
    with Continue assms d have r: "c = Continue (wrap_adjust e v2)" "acts = ?p # a1 @ a2"
      by (simp_all add: wrap_iter_def Let_def)
    from ex r np wrap_sigwinch_io(2)[OF s] have "\<exists>x\<in>set a1. child_io x" by auto
    from wrap_dispatch_io[OF d this] Continue wrap_sigwinch_io(1)[OF s] r
    show ?thesis by (simp add: wrap_adjust_txok)
  qed
qed

lemma wrap_iter_reads_tty:
  assumes "wrap_iter cprtimeout e v = Inr (c, acts)"
    and "0 < e_pending e" and "e_revents0 e \<noteq> 0" and "PFDALIVE (e_revents0 e)"
  shows "Read_TTY \<in> set acts"
proof -
  let ?v0 = "wrap_poll e (wrap_arm e v)"
  have r0: "w_revents0 ?v0 = e_revents0 e" by (simp add: wrap_poll_def)
  from assms obtain c1 a1 where d: "wrap_dispatch cprtimeout e ?v0 = Inr (c1, a1)"
    by (auto simp: wrap_iter_def Let_def split: sum.splits)
  from d assms r0 obtain c2 a2 where
    t: "wrap_tty (e_tty_read e) (e_tcgetattr e) (e_tty_attr e) ?v0 = Inr (c2, a2)"
    by (auto simp: wrap_dispatch_def split: sum.splits)
  from wrap_tty_io(2)[OF t] assms r0 have "Read_TTY \<in> set a2" by simp
  moreover have "set a2 \<subseteq> set a1"
    using d t assms r0 by (cases c2) (auto simp: wrap_dispatch_def split: prod.splits)
  moreover have "set a1 \<subseteq> set acts"
    using assms(1) d by (cases c1) (auto simp: wrap_iter_def Let_def split: prod.splits)
  ultimately show ?thesis by auto
qed

lemma ping_tty_actions:
  "ping_tty reply len cprtimeout env = Inr pr \<Longrightarrow> set (pr_actions pr) \<subseteq> {Write_TTY ANSI_CPR}"
  by (auto simp: ping_tty_def split: if_splits sum.splits)

lemma wrap_timeout_nopoll:
  assumes "wrap_timeout cprtimeout p v = Inr (v', acts)"
  shows "Poll n t \<notin> set acts"
proof (cases "w_txok v = 0")
  case True
  with wrap_timeout_io(2)[OF assms] show ?thesis by simp
next
  case False
  with assms obtain pr where p: "ping_tty (w_buffer v) (Some (w_received v)) cprtimeout p = Inr pr"
    by (auto simp: wrap_timeout_def split: sum.splits)
  from ping_tty_actions[OF p] have "\<And>n t. Poll n t \<notin> set (pr_actions pr)" by auto
  with assms p False show ?thesis
    by (auto simp: wrap_timeout_def Let_def split: if_splits)
qed

lemma wrap_tty_nopoll:
  "wrap_tty r g a v = Inr (c, acts) \<Longrightarrow> Poll n t \<notin> set acts"
  by (auto simp: wrap_tty_def Let_def split: if_splits sum.splits prod.splits)

lemma wrap_dispatch_nopoll:
  assumes "wrap_dispatch cprtimeout e v = Inr (c, acts)"
  shows "Poll n t \<notin> set acts"
proof -
  consider (timeout) "e_pending e = 0" | (ready) "e_pending e > 0" | (err) "e_pending e < 0"
    by linarith
  then show ?thesis
  proof cases
    case timeout
    with assms obtain v1 where t: "wrap_timeout cprtimeout (e_ping e) v = Inr (v1, acts)"
      by (auto simp: wrap_dispatch_def split: sum.splits)
    from wrap_timeout_nopoll[OF t] show ?thesis .
  next
    case ready
    show ?thesis
    proof (cases "w_revents0 v \<noteq> 0")
      case False
      with ready assms obtain ch: "wrap_child (e_child_read e) v = (c, acts)"
        by (auto simp: wrap_dispatch_def split: sum.splits prod.splits)
      from wrap_child_io(3)[OF ch] show ?thesis by auto
    next
      case True
      with ready assms obtain c1 a1 where
        t: "wrap_tty (e_tty_read e) (e_tcgetattr e) (e_tty_attr e) v = Inr (c1, a1)"
        by (auto simp: wrap_dispatch_def split: sum.splits)
      show ?thesis
      proof (cases c1)
        case (Break v1)
        with t True ready assms have "acts = a1"
          by (simp add: wrap_dispatch_def)
        with wrap_tty_nopoll[OF t] show ?thesis by simp
      next
        case (Continue v1)
        with t True ready assms obtain a2 where
          ch: "wrap_child (e_child_read e) v1 = (c, a2)" and a: "acts = a1 @ a2"
          by (auto simp: wrap_dispatch_def split: prod.splits)
        from wrap_child_io(3)[OF ch] wrap_tty_nopoll[OF t] a show ?thesis by auto
      qed
    qed
  next
    case err
    with assms have "acts = []"
      by (auto simp: wrap_dispatch_def split: if_splits)
    then show ?thesis by simp
  qed
qed

lemma wrap_iter_polls_once:
  assumes "wrap_iter cprtimeout e v = Inr (c, acts)"
  shows "\<exists>rest. acts = Poll (if w_txok v \<noteq> 0 then 2 else 1) (w_polltimeoutms (wrap_arm e v)) # rest
           \<and> (\<forall>x\<in>set rest. \<forall>n t. x \<noteq> Poll n t)"
proof -
  let ?v0 = "wrap_poll e (wrap_arm e v)"
  have n: "wrap_nfds (wrap_arm e v) = (if w_txok v \<noteq> 0 then 2 else 1)"
    by (simp add: wrap_nfds_def wrap_arm_def)
  from assms obtain c1 a1 where d: "wrap_dispatch cprtimeout e ?v0 = Inr (c1, a1)"
    by (auto simp: wrap_iter_def Let_def split: sum.splits)
  obtain v2 a2 where s: "wrap_sigwinch e (ctl_vars c1) = (v2, a2)"
    by (cases "wrap_sigwinch e (ctl_vars c1)")
  have "\<And>n t. Poll n t \<notin> set a2"
    using s by (auto simp: wrap_sigwinch_def split: if_splits)
  with wrap_dispatch_nopoll[OF d] assms d n s show ?thesis
    by (cases c1) (auto simp: wrap_iter_def Let_def)
qed

lemma suspended_window_txok: "suspended_window cprtimeout es v \<Longrightarrow> w_txok v = 0"
  by (cases es) simp_all

lemma suspended_window_quiet:
  "suspended_window cprtimeout es v \<Longrightarrow> wrap_loop cprtimeout es v = Inr (c, acts) \<Longrightarrow>
   \<forall>x\<in>set acts. \<not> child_io x \<and> (\<forall>n t. x = Poll n t \<longrightarrow> n = 1)"
proof (induction es arbitrary: v c acts)
  case Nil
  then show ?case by simp
next
  case (Cons e es)
  from Cons.prems(2) obtain c1 a1 where it: "wrap_iter cprtimeout e v = Inr (c1, a1)"
    by (auto split: sum.splits)
  from Cons.prems(1) have tx: "w_txok v = 0" by simp
  have tx1: "w_txok (ctl_vars c1) = 0"
    using Cons.prems(1) it by (cases c1) (auto dest: suspended_window_txok)
  with wrap_iter_io(2)[OF it] have q1: "\<forall>x\<in>set a1. \<not> child_io x" by auto
  from wrap_iter_polls_once[OF it] tx obtain rest where
    a1: "a1 = Poll 1 (w_polltimeoutms (wrap_arm e v)) # rest"
    and nopoll: "\<forall>x\<in>set rest. \<forall>n t. x \<noteq> Poll n t" by auto
  obtain c0 b0 where d: "wrap_dispatch cprtimeout e (wrap_poll e (wrap_arm e v)) = Inr (c0, b0)"
    using it by (auto simp: wrap_iter_def Let_def split: sum.splits)
  have q: "\<forall>x\<in>set a1. \<not> child_io x \<and> (\<forall>n t. x = Poll n t \<longrightarrow> n = 1)"
    using q1 a1 nopoll by auto
  show ?case
  proof (cases c1)
    case (Break v1)
    with it Cons.prems(2) have "acts = a1" by simp
    with q show ?thesis by simp
  next
    case (Continue v1)
    with it Cons.prems(2) obtain a2 where
      l: "wrap_loop cprtimeout es v1 = Inr (c, a2)" and a: "acts = a1 @ a2"
      by (auto split: sum.splits)
    from Cons.prems(1) it Continue have "suspended_window cprtimeout es v1" by simp
    from Cons.IH[OF this l] q a show ?thesis by auto
  qed
qed

text \<open>
  Claim C4. In a state with \<open>txok\<close> zero an iteration polls the terminal descriptor
  alone; if the iteration reads from the program or writes to the terminal at all, \<open>txok\<close>
  has been switched on by the terminal input of that iteration (the branch for the
  program's output does nothing while \<open>txok\<close> is zero); terminal input that is ready is
  read. Over a whole window of iterations in which \<open>txok\<close> stays zero, no read from the
  program, no write to the terminal and no poll of two descriptors occurs.
\<close>

theorem suspended_no_child_io:
  assumes "w_txok v = 0"
  shows "(\<forall>c acts. wrap_iter cprtimeout e v = Inr (c, acts) \<longrightarrow>
            (\<exists>rest. acts = Poll 1 (w_polltimeoutms (wrap_arm e v)) # rest)
          \<and> ((\<exists>x\<in>set acts. child_io x) \<longrightarrow> w_txok (ctl_vars c) \<noteq> 0)
          \<and> (0 < e_pending e \<and> e_revents0 e \<noteq> 0 \<and> PFDALIVE (e_revents0 e) \<longrightarrow> Read_TTY \<in> set acts))
       \<and> snd (wrap_child r v) = []
       \<and> (\<forall>c acts. suspended_window cprtimeout es v \<and> wrap_loop cprtimeout es v = Inr (c, acts) \<longrightarrow>
            (\<forall>x\<in>set acts. \<not> child_io x \<and> (\<forall>n t. x = Poll n t \<longrightarrow> n = 1)))"
proof (intro conjI allI impI)
  fix c acts
  assume it: "wrap_iter cprtimeout e v = Inr (c, acts)"
  from wrap_iter_polls_once[OF it] assms
  show "\<exists>rest. acts = Poll 1 (w_polltimeoutms (wrap_arm e v)) # rest" by auto
  { assume "\<exists>x\<in>set acts. child_io x"
    with wrap_iter_io(2)[OF it] show "w_txok (ctl_vars c) \<noteq> 0" by simp }
  { assume "0 < e_pending e \<and> e_revents0 e \<noteq> 0 \<and> PFDALIVE (e_revents0 e)"
    with wrap_iter_reads_tty[OF it] show "Read_TTY \<in> set acts" by simp }
next
  obtain c acts where ch: "wrap_child r v = (c, acts)" by (cases "wrap_child r v")
  from wrap_child_io(2)[OF ch assms] ch show "snd (wrap_child r v) = []" by simp
next
  fix c acts
  assume "suspended_window cprtimeout es v \<and> wrap_loop cprtimeout es v = Inr (c, acts)"
  then show "\<forall>x\<in>set acts. \<not> child_io x \<and> (\<forall>n t. x = Poll n t \<longrightarrow> n = 1)"
    using suspended_window_quiet by blast
qed

lemma xon_iter:
  "wrap_iter cprtimeout (quiet\<lparr>e_pending := 1, e_revents0 := POLLIN, e_tty_read := Rd_Data [XON]\<rparr>) suspended
     = Inr (Continue (suspended\<lparr>w_txok := 1, w_buffer := [XON, 0, 0, 0, 0, 0, 0, 0, 0, 0]\<rparr>),
            [Poll 1 1000, Read_TTY])"
  by (simp add: wrap_iter_def wrap_dispatch_def wrap_tty_def wrap_child_def wrap_sigwinch_def
      wrap_adjust_def wrap_arm_def wrap_poll_def wrap_nfds_def quiet_def suspended_def wrap_init_def
      trunc_int_def POLLIN_def PFDALIVE_def POLLERR_def POLLHUP_def POLLNVAL_def IXOFF_def
      store_def flow_control_preprocessor_def fcp_loop.simps XON_def XOFF_def)

theorem suspended_no_child_io_witness:
  "w_txok suspended = 0
   \<and> wrap_iter (1 / 5) (quiet\<lparr>e_pending := 1, e_revents0 := POLLIN, e_tty_read := Rd_Data [XON]\<rparr>) suspended
       = Inr (Continue (suspended\<lparr>w_txok := 1, w_buffer := [XON, 0, 0, 0, 0, 0, 0, 0, 0, 0]\<rparr>),
              [Poll 1 1000, Read_TTY])
   \<and> snd (wrap_child (Rd_Data [0x41]) suspended) = []"
  using suspended_no_child_io[of suspended "1 / 5"
          "quiet\<lparr>e_pending := 1, e_revents0 := POLLIN, e_tty_read := Rd_Data [XON]\<rparr>" "Rd_Data [0x41]" "[]"]
    xon_iter[of "1 / 5"]
  by (simp add: suspended_def wrap_init_def)

theorem timeout_while_suspended_witness:
  "e_pending quiet = 0 \<and> w_txok suspended = 0
   \<and> wrap_iter (1 / 5) quiet suspended
       = Inr (Continue (suspended\<lparr>w_timeout := - 1, w_polltimeoutms := - 1\<rparr>), [Poll 1 1000, Kill SIGHUP])"
proof -
  have h: "e_pending quiet = 0" "w_txok suspended = 0"
    by (simp_all add: quiet_def suspended_def wrap_init_def)
  from timeout_while_suspended[OF h, of "1 / 5" no_reply]
  obtain v' acts where "wrap_iter (1 / 5) quiet suspended = Inr (Continue v', acts)" by blast
  moreover have "wrap_iter (1 / 5) quiet suspended
       = Inr (Continue (suspended\<lparr>w_timeout := - 1, w_polltimeoutms := - 1\<rparr>), [Poll 1 1000, Kill SIGHUP])"
    by (simp add: wrap_iter_def wrap_dispatch_def wrap_timeout_def wrap_sigwinch_def
      wrap_adjust_def wrap_arm_def wrap_poll_def wrap_nfds_def quiet_def suspended_def wrap_init_def
      trunc_int_def)
  ultimately show ?thesis using h by simp
qed

text \<open>An interruption that lasts less than a second leaves the timeout as it was.\<close>

lemma wrap_adjust_short:
  assumes "0 \<le> e_timer_end e - w_start v" and "e_timer_end e - w_start v < 1"
  shows "w_polltimeoutms (wrap_adjust e v) = w_polltimeoutms v"
proof -
  have "\<lfloor>e_timer_end e - w_start v\<rfloor> = 0"
    using assms by (simp add: floor_eq_iff)
  with assms show ?thesis
    by (simp add: wrap_adjust_def trunc_int_def)
qed

text \<open>
  Claim C6 at a concrete input: activity timeout 1 s, \<open>poll(2)\<close> interrupted by a signal
  0.3 s after it began. The elapsed time is truncated to whole seconds before it is scaled
  to milliseconds, so nothing is subtracted: the next wait is again 1000 ms, not 700 ms.
\<close>

theorem interrupted_wait_not_shortened:
  "\<exists>v'. wrap_iter cprtimeout
           (e\<lparr>e_timer_start := 100, e_pending := - 1, e_errno := EINTR, e_sigwinch := False,
              e_timer_end := 100 + 3 / 10\<rparr>)
           (wrap_init 1 buffer attr) = Inr (Continue v', [Poll 2 1000])
      \<and> w_timeout v' = 1 \<and> w_polltimeoutms v' = 1000
      \<and> w_polltimeoutms (wrap_arm e' v') = 1000"
  by (simp add: wrap_iter_def wrap_dispatch_def wrap_sigwinch_def
      wrap_adjust_def wrap_arm_def wrap_poll_def wrap_nfds_def wrap_init_def
      trunc_int_def EINTR_def)

section \<open>Hangup\<close>

lemma hangups_simps [simp]:
  "hangups [] = 0" "hangups (a @ b) = hangups a + hangups b"
  "hangups (Kill SIGHUP # a) = Suc (hangups a)"
  "hangups (Kill SIGWINCH # a) = hangups a"
  "hangups (Poll n t # a) = hangups a"
  "hangups (Read_TTY # a) = hangups a"
  "hangups (Read_Child # a) = hangups a"
  "hangups (Write_TTY bs # a) = hangups a"
  "hangups (Write_Child bs # a) = hangups a"
  "hangups (Set_Winsize # a) = hangups a"
  by (simp_all add: hangups_def SIGHUP_def SIGWINCH_def)

lemma ping_tty_hangups:
  "ping_tty reply len cprtimeout env = Inr pr \<Longrightarrow> hangups (pr_actions pr) = 0"
  by (auto simp: ping_tty_def split: if_splits sum.splits)

lemma wrap_timeout_hangup:
  assumes "wrap_timeout cprtimeout p v = Inr (v', acts)"
  shows "(w_state v' = DEVICE_OFFLINE \<and> hangups acts = 1 \<and> w_timeout v' = - 1 \<and> w_polltimeoutms v' = - 1)
       \<or> (w_state v' \<noteq> DEVICE_OFFLINE \<and> hangups acts = 0)"
proof (cases "w_txok v = 0")
  case True
  with assms show ?thesis by (auto simp: wrap_timeout_def)
next
  case False
  with assms obtain pr where p: "ping_tty (w_buffer v) (Some (w_received v)) cprtimeout p = Inr pr"
    by (auto simp: wrap_timeout_def split: sum.splits)
  from ping_tty_hangups[OF p] assms p False show ?thesis
    by (auto simp: wrap_timeout_def Let_def split: if_splits)
qed

lemma wrap_tty_hangup:
  assumes "wrap_tty r g a v = Inr (c, acts)"
  shows "hangups acts = 0" and "disarmed v \<Longrightarrow> disarmed (ctl_vars c)"
  using assms
  by (auto simp: wrap_tty_def Let_def disarmed_def split: if_splits sum.splits prod.splits)

lemma wrap_child_hangup:
  assumes "wrap_child r v = (c, acts)"
  shows "hangups acts = 0" and "disarmed v \<Longrightarrow> disarmed (ctl_vars c)"
  using assms
  by (auto simp: wrap_child_def Let_def disarmed_def split: if_splits prod.splits)

lemma wrap_sigwinch_hangup:
  assumes "wrap_sigwinch e v = (v', acts)"
  shows "hangups acts = 0" and "disarmed v \<Longrightarrow> disarmed v'"
  using assms by (auto simp: wrap_sigwinch_def disarmed_def split: if_splits)

lemma wrap_dispatch_ready_hangup:
  assumes "wrap_dispatch cprtimeout e v = Inr (c, acts)" and "e_pending e \<noteq> 0"
  shows "hangups acts = 0" and "disarmed v \<Longrightarrow> disarmed (ctl_vars c)"
proof -
  have "hangups acts = 0 \<and> (disarmed v \<longrightarrow> disarmed (ctl_vars c))"
  proof (cases "e_pending e > 0")
    case False
    with assms show ?thesis by (auto simp: wrap_dispatch_def split: if_splits)
  next
    case ready: True
    show ?thesis
    proof (cases "w_revents0 v \<noteq> 0")
      case False
      with ready assms obtain ch: "wrap_child (e_child_read e) v = (c, acts)"
        by (auto simp: wrap_dispatch_def split: sum.splits prod.splits)
      from wrap_child_hangup[OF ch] show ?thesis by simp
    next
      case True
      with ready assms obtain c1 a1 where
        t: "wrap_tty (e_tty_read e) (e_tcgetattr e) (e_tty_attr e) v = Inr (c1, a1)"
        by (auto simp: wrap_dispatch_def split: sum.splits)
      show ?thesis
      proof (cases c1)
        case (Break v1)
        with t True ready assms have "acts = a1" "c = c1"
          by (simp_all add: wrap_dispatch_def)
        with wrap_tty_hangup[OF t] show ?thesis by simp
      next
        case (Continue v1)
        with t True ready assms obtain a2 where
          ch: "wrap_child (e_child_read e) v1 = (c, a2)" and a: "acts = a1 @ a2"
          by (auto simp: wrap_dispatch_def split: prod.splits)
        from wrap_child_hangup[OF ch] wrap_tty_hangup[OF t] a Continue show ?thesis by simp
      qed
    qed
  qed
  then show "hangups acts = 0" and "disarmed v \<Longrightarrow> disarmed (ctl_vars c)" by simp_all
qed

lemma wrap_adjust_disarmed: "disarmed v \<Longrightarrow> wrap_adjust e v = v"
  by (simp add: wrap_adjust_def disarmed_def)

lemma wrap_prep_disarmed: "disarmed v \<Longrightarrow> disarmed (wrap_poll e (wrap_arm e v))"
  by (simp add: wrap_poll_def wrap_arm_def disarmed_def)

lemma wrap_iter_hangup:
  assumes "wrap_iter cprtimeout e v = Inr (c, acts)"
  shows "hangups acts \<le> 1"
    and "hangups acts = 1 \<Longrightarrow> disarmed (ctl_vars c)"
    and "disarmed v \<Longrightarrow> poll_feasible e v \<Longrightarrow> hangups acts = 0 \<and> disarmed (ctl_vars c)"
proof -
  let ?v0 = "wrap_poll e (wrap_arm e v)"
  from assms obtain c1 a1 where d: "wrap_dispatch cprtimeout e ?v0 = Inr (c1, a1)"
    by (auto simp: wrap_iter_def Let_def split: sum.splits)
  obtain v2 a2 where s: "wrap_sigwinch e (ctl_vars c1) = (v2, a2)"
    by (cases "wrap_sigwinch e (ctl_vars c1)")
  have h: "hangups acts = hangups a1"
    using assms d s wrap_sigwinch_hangup(1)[OF s] by (cases c1) (auto simp: wrap_iter_def Let_def)
  have cv: "ctl_vars c = (case c1 of Break v1 \<Rightarrow> v1 | Continue v1 \<Rightarrow> wrap_adjust e v2)"
    using assms d s by (cases c1) (auto simp: wrap_iter_def Let_def)
  have main: "hangups a1 \<le> 1 \<and> (hangups a1 = 1 \<longrightarrow> disarmed (ctl_vars c))
         \<and> (disarmed v \<and> poll_feasible e v \<longrightarrow> hangups a1 = 0 \<and> disarmed (ctl_vars c))"
  proof (cases "e_pending e = 0")
    case True
    with d obtain v1 where t: "wrap_timeout cprtimeout (e_ping e) ?v0 = Inr (v1, a1)"
      and c1: "c1 = Continue v1"
      by (auto simp: wrap_dispatch_def split: sum.splits)
    have nf: "\<not> (disarmed v \<and> poll_feasible e v)"
      using True by (auto simp: disarmed_def poll_feasible_def wrap_arm_def)
    from wrap_timeout_hangup[OF t]
    show ?thesis
    proof
      assume off: "w_state v1 = DEVICE_OFFLINE \<and> hangups a1 = 1 \<and> w_timeout v1 = - 1 \<and> w_polltimeoutms v1 = - 1"
      then have "disarmed v1" by (simp add: disarmed_def)
      with wrap_sigwinch_hangup(2)[OF s] c1 have "disarmed v2" by simp
      with cv c1 off nf show ?thesis by (auto simp add: wrap_adjust_disarmed)
    next
      assume "w_state v1 \<noteq> DEVICE_OFFLINE \<and> hangups a1 = 0"
      with nf show ?thesis by auto
    qed
  next
    case False
    from wrap_dispatch_ready_hangup[OF d False]
    have z: "hangups a1 = 0" and dis: "disarmed ?v0 \<Longrightarrow> disarmed (ctl_vars c1)" by simp_all
    { assume dv: "disarmed v"
      from dis wrap_prep_disarmed[OF dv] have d1: "disarmed (ctl_vars c1)" by simp
      with wrap_sigwinch_hangup(2)[OF s] have "disarmed v2" by simp
      with cv d1 have "disarmed (ctl_vars c)"
        by (cases c1) (simp_all add: wrap_adjust_disarmed) }
    with z show ?thesis by simp
  qed
  with h show "hangups acts \<le> 1"
    and "hangups acts = 1 \<Longrightarrow> disarmed (ctl_vars c)"
    and "disarmed v \<Longrightarrow> poll_feasible e v \<Longrightarrow> hangups acts = 0 \<and> disarmed (ctl_vars c)"
    by simp_all
qed

lemma wrap_loop_disarmed:
  "disarmed v \<Longrightarrow> run_feasible cprtimeout es v \<Longrightarrow> wrap_loop cprtimeout es v = Inr (c, acts) \<Longrightarrow>
   hangups acts = 0 \<and> disarmed (ctl_vars c)"
proof (induction es arbitrary: v c acts)
  case Nil
  then show ?case by auto
next
  case (Cons e es)
  from Cons.prems(3) obtain c1 a1 where it: "wrap_iter cprtimeout e v = Inr (c1, a1)"
    by (auto split: sum.splits)
  from Cons.prems(2) have pf: "poll_feasible e v" by simp
  from wrap_iter_hangup(3)[OF it Cons.prems(1) pf]
  have z: "hangups a1 = 0" and d1: "disarmed (ctl_vars c1)" by simp_all
  show ?case
  proof (cases c1)
    case (Break v1)
    with it Cons.prems(3) z d1 show ?thesis by auto
  next
    case (Continue v1)
    with it Cons.prems(3) obtain a2 where
      l: "wrap_loop cprtimeout es v1 = Inr (c, a2)" and a: "acts = a1 @ a2"
      by (auto split: sum.splits)
    from Cons.prems(2) it Continue have f: "run_feasible cprtimeout es v1" by simp
    from Cons.IH[OF _ f l] d1 Continue z a show ?thesis by simp
  qed
qed

lemma wrap_timeout_offline:
  assumes "wrap_timeout cprtimeout p v = Inr (v', acts)"
  shows "(w_state v' = DEVICE_OFFLINE)
       = (w_txok v = 0 \<or>
          (case ping_tty (w_buffer v) (Some (w_received v)) cprtimeout p of
             Inl s \<Rightarrow> False
           | Inr pr \<Rightarrow> pr_state pr = DEVICE_OFFLINE))"
  using assms by (auto simp: wrap_timeout_def Let_def split: if_splits sum.splits)

lemma wrap_prep_probe:
  "w_txok (wrap_poll e (wrap_arm e v)) = w_txok v"
  "w_buffer (wrap_poll e (wrap_arm e v)) = w_buffer v"
  "w_received (wrap_poll e (wrap_arm e v)) = w_received v"
  by (simp_all add: wrap_poll_def wrap_arm_def)

lemma wrap_iter_silent:
  assumes "wrap_iter cprtimeout e v = Inr (c, acts)"
  shows "hangups acts = (if silent_timeout cprtimeout e v then 1 else 0)"
    and "silent_timeout cprtimeout e v \<Longrightarrow>
           w_timeout (ctl_vars c) = - 1 \<and> w_polltimeoutms (ctl_vars c) = - 1"
proof -
  let ?v0 = "wrap_poll e (wrap_arm e v)"
  from assms obtain c1 a1 where d: "wrap_dispatch cprtimeout e ?v0 = Inr (c1, a1)"
    by (auto simp: wrap_iter_def Let_def split: sum.splits)
  obtain v2 a2 where s: "wrap_sigwinch e (ctl_vars c1) = (v2, a2)"
    by (cases "wrap_sigwinch e (ctl_vars c1)")
  have h: "hangups acts = hangups a1"
    using assms d s wrap_sigwinch_hangup(1)[OF s] by (cases c1) (auto simp: wrap_iter_def Let_def)
  have "hangups a1 = (if silent_timeout cprtimeout e v then 1 else 0)
      \<and> (silent_timeout cprtimeout e v \<longrightarrow>
           w_timeout (ctl_vars c) = - 1 \<and> w_polltimeoutms (ctl_vars c) = - 1)"
  proof (cases "e_pending e = 0")
    case False
    from wrap_dispatch_ready_hangup(1)[OF d False] False show ?thesis
      by (simp add: silent_timeout_def)
  next
    case True
    with d obtain v1 where t: "wrap_timeout cprtimeout (e_ping e) ?v0 = Inr (v1, a1)"
      and c1: "c1 = Continue v1"
      by (auto simp: wrap_dispatch_def split: sum.splits)
    have st: "(w_state v1 = DEVICE_OFFLINE) = silent_timeout cprtimeout e v"
      using wrap_timeout_offline[OF t] True by (simp add: wrap_prep_probe silent_timeout_def)
    have cv: "c = Continue (wrap_adjust e v2)"
      using assms d s c1 by (auto simp: wrap_iter_def Let_def)
    from wrap_timeout_hangup[OF t] show ?thesis
    proof
      assume off: "w_state v1 = DEVICE_OFFLINE \<and> hangups a1 = 1
                     \<and> w_timeout v1 = - 1 \<and> w_polltimeoutms v1 = - 1"
      with s c1 have "w_timeout v2 = - 1 \<and> w_polltimeoutms v2 = - 1"
        by (auto simp: wrap_sigwinch_def split: if_splits)
      with cv off st show ?thesis by (simp add: wrap_adjust_def)
    next
      assume "w_state v1 \<noteq> DEVICE_OFFLINE \<and> hangups a1 = 0"
      with st show ?thesis by simp
    qed
  qed
  with h show "hangups acts = (if silent_timeout cprtimeout e v then 1 else 0)"
    and "silent_timeout cprtimeout e v \<Longrightarrow>
           w_timeout (ctl_vars c) = - 1 \<and> w_polltimeoutms (ctl_vars c) = - 1"
    by simp_all
qed

lemma wrap_loop_silent:
  "run_feasible cprtimeout es v \<Longrightarrow> wrap_loop cprtimeout es v = Inr (c, acts) \<Longrightarrow>
   hangups acts = (if silent_cycle cprtimeout es v then 1 else 0)
   \<and> (silent_cycle cprtimeout es v \<longrightarrow> disarmed (ctl_vars c))"
proof (induction es arbitrary: v c acts)
  case Nil
  then show ?case by auto
next
  case (Cons e es)
  from Cons.prems(2) obtain c1 a1 where it: "wrap_iter cprtimeout e v = Inr (c1, a1)"
    by (auto split: sum.splits)
  note h = wrap_iter_silent[OF it]
  show ?case
  proof (cases c1)
    case (Break v1)
    with it Cons.prems(2) have r: "acts = a1" "c = Break v1" by simp_all
    have sc: "silent_cycle cprtimeout (e # es) v = silent_timeout cprtimeout e v"
      using it Break by simp
    from h r Break sc show ?thesis by (auto simp: disarmed_def)
  next
    case (Continue v1)
    with it Cons.prems(2) obtain a2 where
      l: "wrap_loop cprtimeout es v1 = Inr (c, a2)" and a: "acts = a1 @ a2"
      by (auto split: sum.splits)
    from Cons.prems(1) it Continue have f: "run_feasible cprtimeout es v1" by simp
    show ?thesis
    proof (cases "silent_timeout cprtimeout e v")
      case True
      with h Continue have "disarmed v1" "hangups a1 = 1" by (simp_all add: disarmed_def)
      with wrap_loop_disarmed[OF _ f l] a True show ?thesis by simp
    next
      case False
      with it Continue have sc: "silent_cycle cprtimeout (e # es) v = silent_cycle cprtimeout es v1"
        by simp
      from False h have "hangups a1 = 0" by simp
      with Cons.IH[OF f l] a sc show ?thesis by simp
    qed
  qed
qed

lemma wrap_init_armed:
  assumes "0 \<le> d"
  shows "poll_feasible e (wrap_init d buffer attr)"
  using assms by (simp add: poll_feasible_def wrap_arm_def wrap_init_def)

text \<open>
  Claim C5. For an activity timeout \<open>d\<close> of at least one second the first wait is finite,
  so it can time out. In every run of the mediator the number of hangup signals sent to
  the program is one when the run has a silent cycle (a wait that times out, followed by
  a probe that is not answered), at whatever iteration and after whatever other events,
  and none otherwise. The iteration with the silent timeout sends SIGHUP and sets both
  timeouts to -1, and they are negative at the end of the run: \<open>poll(2)\<close> is given a
  negative timeout from then on and cannot time out again. That \<open>poll(2)\<close> does not report
  a timeout when given a negative one is the assumption \<open>run_feasible\<close>.
\<close>

theorem hangup_exactly_once:
  assumes "1 \<le> d"
    and "run_feasible cprtimeout es (wrap_init d buffer attr)"
    and "wrap_loop cprtimeout es (wrap_init d buffer attr) = Inr (c, acts)"
  shows "(\<forall>e. poll_feasible e (wrap_init d buffer attr)) \<and> \<not> disarmed (wrap_init d buffer attr)
       \<and> hangups acts = (if silent_cycle cprtimeout es (wrap_init d buffer attr) then 1 else 0)
       \<and> (silent_cycle cprtimeout es (wrap_init d buffer attr) \<longrightarrow> disarmed (ctl_vars c))
       \<and> (\<forall>e v c1 a1. silent_timeout cprtimeout e v \<and> wrap_iter cprtimeout e v = Inr (c1, a1) \<longrightarrow>
             hangups a1 = 1 \<and> w_timeout (ctl_vars c1) = - 1 \<and> w_polltimeoutms (ctl_vars c1) = - 1)"
proof (intro conjI allI impI)
  fix e :: wrap_env
  show "poll_feasible e (wrap_init d buffer attr)"
    using assms(1) by (intro wrap_init_armed) simp
next
  show "\<not> disarmed (wrap_init d buffer attr)"
    using assms(1) by (simp add: disarmed_def wrap_init_def)
next
  show "hangups acts = (if silent_cycle cprtimeout es (wrap_init d buffer attr) then 1 else 0)"
    using wrap_loop_silent[OF assms(2,3)] by simp
next
  assume "silent_cycle cprtimeout es (wrap_init d buffer attr)"
  with wrap_loop_silent[OF assms(2,3)] show "disarmed (ctl_vars c)" by simp
next
  fix e :: wrap_env and v :: wrap_vars and c1 :: "wrap_vars ctl" and a1 :: "action list"
  assume h: "silent_timeout cprtimeout e v \<and> wrap_iter cprtimeout e v = Inr (c1, a1)"
  then have it: "wrap_iter cprtimeout e v = Inr (c1, a1)" and st: "silent_timeout cprtimeout e v"
    by simp_all
  from wrap_iter_silent(1)[OF it] st show "hangups a1 = 1" by simp
  from wrap_iter_silent(2)[OF it st] show "w_timeout (ctl_vars c1) = - 1" by simp
  from wrap_iter_silent(2)[OF it st] show "w_polltimeoutms (ctl_vars c1) = - 1" by simp
qed

lemmas wrap_defs = wrap_iter_def wrap_dispatch_def wrap_timeout_def wrap_tty_def wrap_child_def
  wrap_sigwinch_def wrap_adjust_def wrap_arm_def wrap_poll_def wrap_nfds_def wrap_init_def
  trunc_int_def PFDALIVE_def POLLIN_def POLLERR_def POLLHUP_def POLLNVAL_def IXOFF_def EINTR_def
  store_def ping_tty_def ping_body_def

section \<open>Signed and unsigned char\<close>

lemma sint_byte: "sint (c :: byte) = (if uint c < 128 then uint c else uint c - 256)"
proof -
  have u: "uint c = take_bit 8 (sint c)" by (simp add: uint_sint)
  have r: "- 128 \<le> sint c" "sint c < 128"
    using sint_greater_eq[of c] sint_less[of c] by simp_all
  show ?thesis
  proof (cases "0 \<le> sint c")
    case True
    with r have "take_bit 8 (sint c) = sint c"
      by (simp add: take_bit_int_eq_self)
    with u r show ?thesis by simp
  next
    case False
    with r have "take_bit 8 (sint c) = sint c + 256"
      by (simp add: take_bit_eq_mod) (smt (verit) mod_add_self2 mod_pos_pos_trivial)
    with u False r show ?thesis by simp
  qed
qed

lemma ISCONTROL_unsigned:
  "ISCONTROL c = (uint c = 127 \<or> uint c \<le> 31 \<or> (128 \<le> uint c \<and> uint c \<le> 159))"
  using uint_ge_0[of c] uint_lt2p[of c]
  by (auto simp: ISCONTROL_def sint_byte)

lemma ISDIGIT_unsigned: "ISDIGIT c = (48 \<le> uint c \<and> uint c \<le> 57)"
  using uint_ge_0[of c] uint_lt2p[of c]
  by (auto simp: ISDIGIT_def sint_byte)

section \<open>The reply loop\<close>

lemma cpr_adjust_range:
  "0 \<le> step \<Longrightarrow> step \<le> 9 \<Longrightarrow> step \<le> cpr_adjust step b \<and> cpr_adjust step b \<le> 9"
  by (auto simp: cpr_adjust_def)

lemma delivers_read:
  "delivers e b \<Longrightarrow> sys_read 1 (pe_read e) = (1, [b]) \<and> 0 < pe_pending e \<and> PFDALIVE (pe_revents e)"
  by (auto simp: delivers_def split: rd.splits list.splits)

lemma ping_body_ignored:
  assumes "delivers e b" and "ignored b"
  shows "ping_body a e v =
           Inr (Continue (if b = XOFF \<and> c_iflag a AND IXOFF \<noteq> 0
                          then v\<lparr>pv_state := DEVICE_ONLINE, pv_deadline := pv_deadline v + 1 / 10\<rparr>
                          else v\<lparr>pv_state := DEVICE_ONLINE\<rparr>))"
proof -
  from delivers_read[OF assms(1)]
  have r: "sys_read 1 (pe_read e) = (1, [b])"
    and p: "(pe_pending e \<le> 0 \<or> \<not> PFDALIVE (pe_revents e)) = False" by auto
  have c: "(b \<noteq> ESC \<and> ISCONTROL b) = True"
    using assms(2) by (simp add: ignored_def)
  show ?thesis
    unfolding ping_body_def r Let_def
    by (simp only: p c if_False if_True prod.case nth_Cons_0) simp
qed

lemma ping_body_data:
  assumes "delivers e b" and "\<not> ignored b"
  shows "ping_body a e v =
           (if pv_eom v < length (pv_reply v) then
              (if \<not> cpr_valid (cpr_adjust (pv_step v) b) b then
                 Inr (Break (v\<lparr>pv_state := DEVICE_ONLINE, pv_step := cpr_adjust (pv_step v) b,
                               pv_reply := (pv_reply v)[pv_eom v := b], pv_eom := pv_eom v + 1\<rparr>))
               else if cpr_adjust (pv_step v) b = 9 then
                 Inr (Break (v\<lparr>pv_state := DEVICE_ONLINE, pv_step := 10,
                               pv_reply := (pv_reply v)[pv_eom v := b], pv_eom := 0\<rparr>))
               else
                 Inr (Continue (v\<lparr>pv_state := DEVICE_ONLINE, pv_step := cpr_adjust (pv_step v) b + 1,
                               pv_reply := (pv_reply v)[pv_eom v := b], pv_eom := pv_eom v + 1\<rparr>)))
            else Inl Out_Of_Bounds)"
proof -
  from delivers_read[OF assms(1)]
  have r: "sys_read 1 (pe_read e) = (1, [b])"
    and p: "(pe_pending e \<le> 0 \<or> \<not> PFDALIVE (pe_revents e)) = False" by auto
  have c: "(b \<noteq> ESC \<and> ISCONTROL b) = False"
    using assms(2) by (simp add: ignored_def)
  show ?thesis
    unfolding ping_body_def r Let_def
    by (simp only: p c if_False if_True prod.case nth_Cons_0) simp
qed

lemma ping_body_no_byte:
  assumes "pe_pending e \<le> 0 \<or> \<not> PFDALIVE (pe_revents e) \<or> fst (sys_read 1 (pe_read e)) \<le> 0"
  shows "\<exists>v'. (ping_body a e v = Inr (Continue v') \<or> ping_body a e v = Inr (Break v'))
          \<and> pv_step v' = pv_step v \<and> pv_eom v' = pv_eom v \<and> pv_reply v' = pv_reply v"
proof (cases "pe_pending e \<le> 0 \<or> \<not> PFDALIVE (pe_revents e)")
  case True
  then have "ping_body a e v =
        (if pe_pending e = - 1 \<and> pe_errno e = EINTR then Inr (Continue v)
         else if pe_pending e = - 1 then Inr (Break (v\<lparr>pv_state := DEVICE_STATUS_UNKNOWN\<rparr>))
         else Inr (Break v))"
    unfolding ping_body_def by (simp only: if_True)
  then show ?thesis by auto
next
  case False
  obtain received data where r: "sys_read 1 (pe_read e) = (received, data)"
    by (cases "sys_read 1 (pe_read e)")
  with False assms have n: "(received > 0) = False" by simp
  have f: "(pe_pending e \<le> 0 \<or> \<not> PFDALIVE (pe_revents e)) = False" using False by simp
  have "ping_body a e v =
         (if received \<noteq> - 1 \<or> rd_errno (pe_read e) \<noteq> EINTR then
           (if received = - 1 then Inr (Break (v\<lparr>pv_state := DEVICE_STATUS_UNKNOWN\<rparr>))
            else Inr (Break v))
         else Inr (Continue v))"
    unfolding ping_body_def r Let_def by (simp only: f n if_False prod.case)
  then show ?thesis by auto
qed

lemma byte_or_not:
  "(pe_pending e \<le> 0 \<or> \<not> PFDALIVE (pe_revents e) \<or> fst (sys_read 1 (pe_read e)) \<le> 0)
   \<or> (\<exists>b. delivers e b)"
  by (cases "pe_read e"; cases "snd (sys_read 1 (pe_read e))") (auto simp: delivers_def split: list.splits)

lemma ping_body_bounds:
  assumes "in_bounds v"
  shows "\<exists>c. ping_body a e v = Inr c
           \<and> length (pv_reply (ctl_vars c)) = length (pv_reply v)
           \<and> drop CPRSIZE (pv_reply (ctl_vars c)) = drop CPRSIZE (pv_reply v)
           \<and> pv_eom (ctl_vars c) \<le> CPRSIZE
           \<and> (\<forall>v'. c = Continue v' \<longrightarrow> in_bounds v')"
proof -
  from assms have b: "int (pv_eom v) \<le> pv_step v" "pv_step v \<le> 9" "CPRSIZE \<le> length (pv_reply v)"
    by (simp_all add: in_bounds_def)
  then have e10: "pv_eom v < CPRSIZE" "pv_eom v < length (pv_reply v)" "0 \<le> pv_step v"
    by (simp_all add: CPRSIZE_def)
  from byte_or_not[of e] show ?thesis
  proof
    assume "pe_pending e \<le> 0 \<or> \<not> PFDALIVE (pe_revents e) \<or> fst (sys_read 1 (pe_read e)) \<le> 0"
    from ping_body_no_byte[OF this, of a v] obtain v' where
      r: "ping_body a e v = Inr (Continue v') \<or> ping_body a e v = Inr (Break v')"
      and s: "pv_step v' = pv_step v" "pv_eom v' = pv_eom v" "pv_reply v' = pv_reply v"
      by blast
    from s assms e10 have "in_bounds v'" "pv_eom v' \<le> CPRSIZE"
      by (simp_all add: in_bounds_def)
    with r s show ?thesis by auto
  next
    assume "\<exists>b. delivers e b"
    then obtain b where d: "delivers e b" ..
    show ?thesis
    proof (cases "ignored b")
      case True
      from ping_body_ignored[OF d True, of a v] assms e10 show ?thesis
        by (auto simp: in_bounds_def)
    next
      case False
      let ?s = "cpr_adjust (pv_step v) b"
      from cpr_adjust_range[OF e10(3) b(2), of b] have rg: "pv_step v \<le> ?s" "?s \<le> 9" by simp_all
      have dr: "drop CPRSIZE ((pv_reply v)[pv_eom v := b]) = drop CPRSIZE (pv_reply v)"
        using e10(1) by (simp add: drop_update_cancel)
      consider (bad) "\<not> cpr_valid ?s b" | (fin) "cpr_valid ?s b" "?s = 9" | (go) "cpr_valid ?s b" "?s \<noteq> 9"
        by blast
      then show ?thesis
      proof cases
        case bad
        with ping_body_data[OF d False, of a v] e10 dr show ?thesis by simp
      next
        case fin
        with ping_body_data[OF d False, of a v] e10 dr show ?thesis by simp
      next
        case go
        with ping_body_data[OF d False, of a v] e10 dr b rg show ?thesis
          by (simp add: in_bounds_def)
      qed
    qed
  qed
qed

lemma ping_loop_bounds:
  "in_bounds v \<Longrightarrow>
   ping_loop a es v \<noteq> Inl Out_Of_Bounds
   \<and> (\<forall>v'. ping_loop a es v = Inr v' \<longrightarrow>
         length (pv_reply v') = length (pv_reply v)
       \<and> drop CPRSIZE (pv_reply v') = drop CPRSIZE (pv_reply v)
       \<and> pv_eom v' \<le> CPRSIZE)"
proof (induction es arbitrary: v)
  case Nil
  then show ?case by simp
next
  case (Cons e es)
  from Cons.prems have e10: "pv_eom v \<le> CPRSIZE"
    by (simp add: in_bounds_def CPRSIZE_def)
  from ping_body_bounds[OF Cons.prems, of a e] obtain c where
    c: "ping_body a e v = Inr c"
    and k: "length (pv_reply (ctl_vars c)) = length (pv_reply v)"
           "drop CPRSIZE (pv_reply (ctl_vars c)) = drop CPRSIZE (pv_reply v)"
           "pv_eom (ctl_vars c) \<le> CPRSIZE"
    and i: "\<forall>v'. c = Continue v' \<longrightarrow> in_bounds v'"
    by blast
  show ?case
  proof (cases "trunc_int (1000 * (pv_deadline v - pe_now e) + pe_round e) > 0")
    case False
    with e10 show ?thesis by simp
  next
    case True
    show ?thesis
    proof (cases c)
      case (Break v')
      with c k True show ?thesis by simp
    next
      case (Continue v')
      with i have "in_bounds v'" by simp
      from Cons.IH[OF this] c k True Continue show ?thesis by simp
    qed
  qed
qed

text \<open>
  Claim C9. With a reply buffer of at least \<open>CPRSIZE\<close> (ten) bytes, \<open>ping_tty\<close> never
  stores outside the buffer, whatever the terminal sends and whatever the timeout is;
  when it returns, the buffer has its old size, the bytes from index ten on are
  untouched, and the length it reports is between 0 and ten.
\<close>

theorem reply_buffer_never_overrun:
  assumes "CPRSIZE \<le> length reply"
  shows "ping_tty reply len cprtimeout env \<noteq> Inl Out_Of_Bounds
       \<and> (\<forall>pr. ping_tty reply len cprtimeout env = Inr pr \<longrightarrow>
             length (pr_reply pr) = length reply
           \<and> drop CPRSIZE (pr_reply pr) = drop CPRSIZE reply
           \<and> (\<forall>n. pr_length pr = Some n \<longrightarrow> 0 \<le> n \<and> n \<le> int CPRSIZE))"
proof -
  let ?v = "\<lparr>pv_state = DEVICE_OFFLINE, pv_deadline = pg_timer env + cprtimeout,
             pv_step = 0, pv_reply = reply, pv_eom = 0\<rparr>"
  have "in_bounds ?v" using assms by (simp add: in_bounds_def)
  from ping_loop_bounds[OF this, of "pg_tty_attr env" "pg_events env"]
  have l: "ping_loop (pg_tty_attr env) (pg_events env) ?v \<noteq> Inl Out_Of_Bounds"
    and r: "\<And>v'. ping_loop (pg_tty_attr env) (pg_events env) ?v = Inr v' \<Longrightarrow>
         length (pv_reply v') = length reply
       \<and> drop CPRSIZE (pv_reply v') = drop CPRSIZE reply
       \<and> pv_eom v' \<le> CPRSIZE"
    by simp_all
  show ?thesis
  proof (cases "pg_tcgetattr env \<noteq> 0 \<or> pg_tcsetattr env \<noteq> 0 \<or> pg_write env = - 1 \<or> pg_tcdrain env \<noteq> 0")
    case True
    then show ?thesis by (cases len) (auto simp: ping_tty_def)
  next
    case False
    then have p: "ping_tty reply len cprtimeout env =
        (case ping_loop (pg_tty_attr env) (pg_events env) ?v of
           Inl s \<Rightarrow> Inl s
         | Inr v \<Rightarrow>
             Inr \<lparr>pr_state = pv_state v, pr_reply = pv_reply v,
                  pr_length = map_option (\<lambda>_. int (pv_eom v)) len,
                  pr_actions = [Write_TTY ANSI_CPR]\<rparr>)"
      by (simp add: ping_tty_def)
    show ?thesis
    proof (cases "ping_loop (pg_tty_attr env) (pg_events env) ?v")
      case (Inl s)
      with l p show ?thesis by simp
    next
      case (Inr v')
      from r[OF Inr] Inr p show ?thesis by (cases len) auto
    qed
  qed
qed

lemma trunc_int_pos: "(0 < trunc_int x) = (1 \<le> x \<and> x < 2147483648)"
proof (cases "0 \<le> x")
  case True
  have "(0 < \<lfloor>x\<rfloor>) = (1 \<le> x)"
    by (simp add: zero_less_floor)
  with True show ?thesis
    by (auto simp: trunc_int_def)
next
  case False
  then have "\<lceil>x\<rceil> \<le> 0" by (simp add: ceiling_le_zero)
  with False show ?thesis
    by (auto simp: trunc_int_def)
qed

text \<open>From \<open>2 ^ 31\<close> milliseconds on the loop condition fails: the loop is left at once.\<close>

lemma ping_loop_out_of_range:
  "2147483648 \<le> 1000 * (pv_deadline v - pe_now e) + pe_round e \<Longrightarrow> ping_loop a (e # es) v = Inr v"
  using trunc_int_pos[of "1000 * (pv_deadline v - pe_now e) + pe_round e"] by simp











section \<open>The validator and the grammar of reports\<close>









lemma in_reports: "digits r \<Longrightarrow> digits c \<Longrightarrow> cpr_report r c \<in> cpr_reports"
  by (auto simp: cpr_reports_def)












section \<open>Well-formed and malformed replies\<close>









lemma some_report: "cpr_report [0x31] [0x31] \<in> cpr_reports"
  by (intro in_reports) (simp_all add: digits_def ISDIGIT_def)




lemmas probe_defs = answering_def no_reply_def byte_event_def silence_def ping_tty_def
  ping_body_def trunc_int_def PFDALIVE_def POLLIN_def POLLERR_def POLLHUP_def POLLNVAL_def
  cpr_adjust_def cpr_valid_def ISDIGIT_def ISCONTROL_def ESC_def XOFF_def EINTR_def IXOFF_def

lemma overlong_probe:
  "ping_tty [0, 0, 0, 0, 0, 0, 0, 0, 0, 0, 0x7F, 0x7F] (Some 0) (1 / 5)
      (answering [0x1B, 0x5B, 0x31, 0x32, 0x33, 0x3B, 0x34, 0x35, 0x36, 0x37, 0x38, 0x52])
    = Inr \<lparr>pr_state = DEVICE_ONLINE,
           pr_reply = [0x1B, 0x5B, 0x31, 0x32, 0x33, 0x3B, 0x34, 0x35, 0x36, 0x37, 0x7F, 0x7F],
           pr_length = Some 10, pr_actions = [Write_TTY ANSI_CPR]\<rparr>"
  by (simp add: probe_defs)

lemma report_probe:
  "ping_tty [0, 0, 0, 0, 0, 0, 0, 0, 0, 0] (Some 5) (1 / 5)
      (answering [0x1B, 0x5B, 0x32, 0x34, 0x3B, 0x38, 0x30, 0x52])
    = Inr \<lparr>pr_state = DEVICE_ONLINE,
           pr_reply = [0x1B, 0x5B, 0x32, 0x34, 0x3B, 0x38, 0x30, 0x52, 0, 0],
           pr_length = Some 0, pr_actions = [Write_TTY ANSI_CPR]\<rparr>"
  by (simp add: probe_defs)

lemma hi_probe:
  "ping_tty [0, 0, 0, 0, 0, 0, 0, 0, 0, 0] (Some 0) (1 / 5) (answering [0x68, 0x69])
    = Inr \<lparr>pr_state = DEVICE_ONLINE,
           pr_reply = [0x68, 0, 0, 0, 0, 0, 0, 0, 0, 0],
           pr_length = Some 1, pr_actions = [Write_TTY ANSI_CPR]\<rparr>"
  by (simp add: probe_defs)

text \<open>
  With IXOFF set, a byte that comes 50 ms after the deadline the probe started with is
  still taken when an XOFF byte came before it; without IXOFF the loop is left before
  the byte is read.
\<close>

lemma late_byte_after_xoff:
  "ping_tty [0, 0, 0, 0, 0, 0, 0, 0, 0, 0] (Some 0) (1 / 5)
      (no_reply\<lparr>pg_tty_attr := \<lparr>c_iflag = IXOFF\<rparr>,
                pg_events := [(byte_event XOFF)\<lparr>pe_now := 3 / 20\<rparr>,
                              (byte_event 0x68)\<lparr>pe_now := 1 / 4\<rparr>]\<rparr>)
    = Inr \<lparr>pr_state = DEVICE_ONLINE,
           pr_reply = [0x68, 0, 0, 0, 0, 0, 0, 0, 0, 0],
           pr_length = Some 1, pr_actions = [Write_TTY ANSI_CPR]\<rparr>"
  "ping_tty [0, 0, 0, 0, 0, 0, 0, 0, 0, 0] (Some 0) (1 / 5)
      (no_reply\<lparr>pg_events := [(byte_event XOFF)\<lparr>pe_now := 3 / 20\<rparr>,
                              (byte_event 0x68)\<lparr>pe_now := 1 / 4\<rparr>]\<rparr>)
    = Inr \<lparr>pr_state = DEVICE_ONLINE,
           pr_reply = [0, 0, 0, 0, 0, 0, 0, 0, 0, 0],
           pr_length = Some 0, pr_actions = [Write_TTY ANSI_CPR]\<rparr>"
  by (simp_all add: probe_defs)

text \<open>
  A reply timeout of 3000000 seconds is \<open>3 * 10^9\<close> milliseconds, which the cast does not
  turn into a positive \<open>int\<close>: the reply loop is not entered and the terminal is reported
  offline although it answers at once.
\<close>

lemma long_timeout_no_probe:
  "ping_tty [0, 0, 0, 0, 0, 0, 0, 0, 0, 0] (Some 0) 3000000
      (answering [0x1B, 0x5B, 0x32, 0x34, 0x3B, 0x38, 0x30, 0x52])
    = Inr \<lparr>pr_state = DEVICE_OFFLINE,
           pr_reply = [0, 0, 0, 0, 0, 0, 0, 0, 0, 0],
           pr_length = Some 0, pr_actions = [Write_TTY ANSI_CPR]\<rparr>"
  by (simp add: probe_defs)

theorem reply_buffer_never_overrun_witness:
  "CPRSIZE \<le> length [0, 0, 0, 0, 0, 0, 0, 0, 0, 0, 0x7F, 0x7F :: byte]
   \<and> ping_tty [0, 0, 0, 0, 0, 0, 0, 0, 0, 0, 0x7F, 0x7F] (Some 0) (1 / 5)
        (answering [0x1B, 0x5B, 0x31, 0x32, 0x33, 0x3B, 0x34, 0x35, 0x36, 0x37, 0x38, 0x52])
      = Inr \<lparr>pr_state = DEVICE_ONLINE,
             pr_reply = [0x1B, 0x5B, 0x31, 0x32, 0x33, 0x3B, 0x34, 0x35, 0x36, 0x37, 0x7F, 0x7F],
             pr_length = Some 10, pr_actions = [Write_TTY ANSI_CPR]\<rparr>
   \<and> ping_tty [0, 0, 0, 0, 0, 0, 0, 0, 0, 0, 0x7F, 0x7F] (Some 0) (1 / 5)
        (answering [0x1B, 0x5B, 0x31, 0x32, 0x33, 0x3B, 0x34, 0x35, 0x36, 0x37, 0x38, 0x52])
      \<noteq> Inl Out_Of_Bounds"
proof -
  have h: "CPRSIZE \<le> length [0, 0, 0, 0, 0, 0, 0, 0, 0, 0, 0x7F, 0x7F :: byte]"
    by (simp add: CPRSIZE_def)
  from reply_buffer_never_overrun[OF h, of "Some 0" "1 / 5"
      "answering [0x1B, 0x5B, 0x31, 0x32, 0x33, 0x3B, 0x34, 0x35, 0x36, 0x37, 0x38, 0x52]"]
  have "ping_tty [0, 0, 0, 0, 0, 0, 0, 0, 0, 0, 0x7F, 0x7F] (Some 0) (1 / 5)
        (answering [0x1B, 0x5B, 0x31, 0x32, 0x33, 0x3B, 0x34, 0x35, 0x36, 0x37, 0x38, 0x52])
      \<noteq> Inl Out_Of_Bounds"
    by blast
  with h overlong_probe show ?thesis by blast
qed







text \<open>
  A run in which the first probe is answered with a report and the second one is not:
  the hangup is sent at the second timeout, and the wait after it has no limit.
\<close>

lemma hangup_run:
  "wrap_loop (1 / 5)
     [probe_answered [0x1B, 0x5B, 0x32, 0x34, 0x3B, 0x38, 0x30, 0x52], quiet, child_output] started
     = Inr (Continue (started\<lparr>w_timeout := - 1, w_polltimeoutms := - 1, w_received := 1,
                               w_buffer := [0x41, 0x5B, 0x32, 0x34, 0x3B, 0x38, 0x30, 0x52, 0, 0]\<rparr>),
            [Poll 2 1000, Write_TTY ANSI_CPR, Poll 2 1000, Write_TTY ANSI_CPR, Kill SIGHUP,
             Poll 2 (- 1), Read_Child, Write_TTY [0x41]])"
  by (simp add: wrap_defs probe_defs quiet_def child_output_def started_def probe_answered_def)

lemma hangup_run_feasible:
  "run_feasible (1 / 5)
     [probe_answered [0x1B, 0x5B, 0x32, 0x34, 0x3B, 0x38, 0x30, 0x52], quiet, child_output] started"
  by (simp add: wrap_defs probe_defs quiet_def child_output_def started_def probe_answered_def
      poll_feasible_def)

lemma hangup_run_silent:
  "\<not> silent_timeout (1 / 5) (probe_answered [0x1B, 0x5B, 0x32, 0x34, 0x3B, 0x38, 0x30, 0x52]) started"
  "silent_cycle (1 / 5)
     [probe_answered [0x1B, 0x5B, 0x32, 0x34, 0x3B, 0x38, 0x30, 0x52], quiet, child_output] started"
  by (simp_all add: silent_timeout_def wrap_defs probe_defs quiet_def child_output_def started_def
      probe_answered_def)

theorem hangup_exactly_once_witness:
  "run_feasible (1 / 5)
     [probe_answered [0x1B, 0x5B, 0x32, 0x34, 0x3B, 0x38, 0x30, 0x52], quiet, child_output] started
   \<and> \<not> silent_timeout (1 / 5) (probe_answered [0x1B, 0x5B, 0x32, 0x34, 0x3B, 0x38, 0x30, 0x52]) started
   \<and> silent_cycle (1 / 5)
       [probe_answered [0x1B, 0x5B, 0x32, 0x34, 0x3B, 0x38, 0x30, 0x52], quiet, child_output] started
   \<and> wrap_loop (1 / 5)
       [probe_answered [0x1B, 0x5B, 0x32, 0x34, 0x3B, 0x38, 0x30, 0x52], quiet, child_output] started
     = Inr (Continue (started\<lparr>w_timeout := - 1, w_polltimeoutms := - 1, w_received := 1,
                               w_buffer := [0x41, 0x5B, 0x32, 0x34, 0x3B, 0x38, 0x30, 0x52, 0, 0]\<rparr>),
            [Poll 2 1000, Write_TTY ANSI_CPR, Poll 2 1000, Write_TTY ANSI_CPR, Kill SIGHUP,
             Poll 2 (- 1), Read_Child, Write_TTY [0x41]])
   \<and> hangups [Poll 2 1000, Write_TTY ANSI_CPR, Poll 2 1000, Write_TTY ANSI_CPR, Kill SIGHUP,
             Poll 2 (- 1), Read_Child, Write_TTY [0x41]] = 1"
proof -
  have d: "(1 :: real) \<le> 1" by simp
  from hangup_exactly_once[OF d hangup_run_feasible[unfolded started_def]
      hangup_run[unfolded started_def]] hangup_run_silent(2)[unfolded started_def]
  have "hangups [Poll 2 1000, Write_TTY ANSI_CPR, Poll 2 1000, Write_TTY ANSI_CPR, Kill SIGHUP,
             Poll 2 (- 1), Read_Child, Write_TTY [0x41]] = 1"
    by simp
  with hangup_run hangup_run_feasible hangup_run_silent show ?thesis by simp
qed

end
